theory Spec2Isabelle
  imports Main "HOL-Library.Word"
begin

unbundle bit_operations_syntax

section \<open>The Go runtime and library functions used by the replay engine\<close>

text \<open>
  A Go \<open>string\<close> is an immutable sequence of bytes; \<open>len\<close>, comparison with \<open>==\<close>
  and slicing \<open>s[:n]\<close> all work on bytes. It is modelled by Isabelle's \<open>string\<close>, a list
  of 8-bit characters. Text decoded from JSON is UTF-8, so these bytes are the UTF-8
  bytes of the text, and \<open>[]byte(s)\<close> only changes the element type.
\<close>

type_synonym byte = "8 word"
type_synonym uint32 = "32 word"

definition bytes_of :: "string \<Rightarrow> byte list" where
  "bytes_of s = map of_char s"

text \<open>
  The slice expression \<open>s[:n]\<close> panics with ``slice bounds out of range [:n] with
  length l'' when \<open>n\<close> exceeds the length \<open>l\<close> of the string.
\<close>

datatype fault = SliceBounds nat nat

definition slice_to :: "string \<Rightarrow> nat \<Rightarrow> fault + string" where
  "slice_to s n = (if n \<le> length s then Inr (take n s) else Inl (SliceBounds n (length s)))"

text \<open>The number of UTF-8 encoded characters of a string: every byte that is not a
  continuation byte \<open>10xxxxxx\<close> starts one.\<close>

definition rune_count :: "string \<Rightarrow> nat" where
  "rune_count s = length (filter (\<lambda>c. (of_char c :: byte) AND 0xC0 \<noteq> 0x80) s)"

subsection \<open>Package fmt\<close>

definition ldigits :: string where
  "ldigits = ''0123456789abcdef''"

text \<open>Base 10, most significant digit first, no leading zeros, no separators.\<close>

fun decimal :: "nat \<Rightarrow> string" where
  "decimal n = (if n < 10 then [ldigits ! n] else decimal (n div 10) @ [ldigits ! (n mod 10)])"

declare decimal.simps [simp del]

definition fmt_d :: "int \<Rightarrow> string" where
  "fmt_d i = (if i < 0 then CHR ''-'' # decimal (nat (- i)) else decimal (nat i))"

text \<open>\<open>%x\<close> on a byte array: two lower-case hexadecimal digits for every byte.\<close>

definition fmt_x :: "byte list \<Rightarrow> string" where
  "fmt_x bs = concat (map (\<lambda>c. [ldigits ! unat (drop_bit 4 c), ldigits ! unat (c AND 0xF)]) bs)"

text \<open>
  The operands that \<open>main.go\<close> passes to the formatting functions, and the verbs it
  applies to them. Other pairs of verb and operand do not occur in the program and are
  left unspecified.
\<close>

datatype operand = Str string | Int64 "64 word" | Uint16 "16 word" | Bytes "byte list"

fun fmt_operand :: "char \<Rightarrow> operand \<Rightarrow> string" where
  "fmt_operand v (Str s) = (if v = CHR ''s'' then s else undefined)"
| "fmt_operand v (Int64 i) = (if v = CHR ''d'' then fmt_d (sint i) else undefined)"
| "fmt_operand v (Uint16 u) = (if v = CHR ''d'' then fmt_d (uint u) else undefined)"
| "fmt_operand v (Bytes bs) = (if v = CHR ''x'' then fmt_x bs else undefined)"

fun Sprintf :: "string \<Rightarrow> operand list \<Rightarrow> string" where
  "Sprintf [] args = []"
| "Sprintf (c # fmt) args =
    (if c = CHR ''%'' then
       (case (fmt, args) of (v # fmt', a # args') \<Rightarrow> fmt_operand v a @ Sprintf fmt' args')
     else c # Sprintf fmt args)"

subsection \<open>Package crypto/sha256\<close>

text \<open>
  \<open>sha256.Sum256\<close> as the Go library computes it (FIPS 180-4): the message is padded
  with \<open>0x80\<close>, zeros and its length in bits as a big-endian \<open>uint64\<close>, and processed
  in chunks of 64 bytes by \<open>blockGeneric\<close>.
\<close>

text \<open>The round constants \<open>_K\<close>, eight to a row.\<close>

definition K_sha256 :: "uint32 list" where
  "K_sha256 =
     [0x428a2f98, 0x71374491, 0xb5c0fbcf, 0xe9b5dba5, 0x3956c25b, 0x59f111f1, 0x923f82a4, 0xab1c5ed5]
   @ [0xd807aa98, 0x12835b01, 0x243185be, 0x550c7dc3, 0x72be5d74, 0x80deb1fe, 0x9bdc06a7, 0xc19bf174]
   @ [0xe49b69c1, 0xefbe4786, 0x0fc19dc6, 0x240ca1cc, 0x2de92c6f, 0x4a7484aa, 0x5cb0a9dc, 0x76f988da]
   @ [0x983e5152, 0xa831c66d, 0xb00327c8, 0xbf597fc7, 0xc6e00bf3, 0xd5a79147, 0x06ca6351, 0x14292967]
   @ [0x27b70a85, 0x2e1b2138, 0x4d2c6dfc, 0x53380d13, 0x650a7354, 0x766a0abb, 0x81c2c92e, 0x92722c85]
   @ [0xa2bfe8a1, 0xa81a664b, 0xc24b8b70, 0xc76c51a3, 0xd192e819, 0xd6990624, 0xf40e3585, 0x106aa070]
   @ [0x19a4c116, 0x1e376c08, 0x2748774c, 0x34b0bcb5, 0x391c0cb3, 0x4ed8aa4a, 0x5b9cca4f, 0x682e6ff3]
   @ [0x748f82ee, 0x78a5636f, 0x84c87814, 0x8cc70208, 0x90befffa, 0xa4506ceb, 0xbef9a3f7, 0xc67178f2]"

definition init_sha256 :: "uint32 list" where
  "init_sha256 = [0x6a09e667, 0xbb67ae85, 0x3c6ef372, 0xa54ff53a,
                  0x510e527f, 0x9b05688c, 0x1f83d9ab, 0x5be0cd19]"

text \<open>\<open>bits.RotateLeft32(x, -n)\<close>: rotation to the right by \<open>n\<close> bits.\<close>

definition rotr :: "nat \<Rightarrow> uint32 \<Rightarrow> uint32" where
  "rotr n x = drop_bit n x OR push_bit (32 - n) x"

definition be_uint32 :: "byte list \<Rightarrow> nat \<Rightarrow> uint32" where
  "be_uint32 p j = push_bit 24 (ucast (p ! j)) OR push_bit 16 (ucast (p ! (j + 1)))
                   OR push_bit 8 (ucast (p ! (j + 2))) OR ucast (p ! (j + 3))"

text \<open>The message schedule \<open>w[16..63]\<close>, filled from \<open>w[0..15]\<close>.\<close>

function schedule :: "nat \<Rightarrow> uint32 list \<Rightarrow> uint32 list" where
  "schedule i w =
    (if i < 64 then
       (let v1 = w ! (i - 2);
            t1 = rotr 17 v1 XOR rotr 19 v1 XOR drop_bit 10 v1;
            v2 = w ! (i - 15);
            t2 = rotr 7 v2 XOR rotr 18 v2 XOR drop_bit 3 v2
        in schedule (i + 1) (w @ [t1 + w ! (i - 7) + t2 + w ! (i - 16)]))
     else w)"
  by pat_completeness auto
termination
  by (relation "measure (\<lambda>(i, w). 64 - i)") auto

declare schedule.simps [simp del]

type_synonym regs =
  "uint32 \<times> uint32 \<times> uint32 \<times> uint32 \<times> uint32 \<times> uint32 \<times> uint32 \<times> uint32"

definition round_sha256 :: "uint32 list \<Rightarrow> regs \<Rightarrow> nat \<Rightarrow> regs" where
  "round_sha256 w r i = (case r of (a, b, c, d, e, f, g, h) \<Rightarrow>
    (let t1 = h + (rotr 6 e XOR rotr 11 e XOR rotr 25 e) + ((e AND f) XOR (NOT e AND g))
                + K_sha256 ! i + w ! i;
         t2 = (rotr 2 a XOR rotr 13 a XOR rotr 22 a) + ((a AND b) XOR (a AND c) XOR (b AND c))
     in (t1 + t2, a, b, c, d + t1, e, f, g)))"

text \<open>One chunk of 64 bytes.\<close>

definition compress :: "uint32 list \<Rightarrow> byte list \<Rightarrow> uint32 list" where
  "compress hs p =
    (let w = schedule 16 (map (\<lambda>i. be_uint32 p (i * 4)) [0..<16]) in
     case foldl (round_sha256 w)
            (hs ! 0, hs ! 1, hs ! 2, hs ! 3, hs ! 4, hs ! 5, hs ! 6, hs ! 7) [0..<64] of
       (a, b, c, d, e, f, g, h) \<Rightarrow> map2 (+) hs [a, b, c, d, e, f, g, h])"

fun blockGeneric :: "uint32 list \<Rightarrow> byte list \<Rightarrow> uint32 list" where
  "blockGeneric hs p =
    (if 64 \<le> length p then blockGeneric (compress hs (take 64 p)) (drop 64 p) else hs)"

declare blockGeneric.simps [simp del]

definition be_uint64 :: "64 word \<Rightarrow> byte list" where
  "be_uint64 n = [ucast (drop_bit 56 n), ucast (drop_bit 48 n), ucast (drop_bit 40 n),
                  ucast (drop_bit 32 n), ucast (drop_bit 24 n), ucast (drop_bit 16 n),
                  ucast (drop_bit 8 n), ucast n]"

definition be_uint32_bytes :: "uint32 \<Rightarrow> byte list" where
  "be_uint32_bytes v = [ucast (drop_bit 24 v), ucast (drop_bit 16 v), ucast (drop_bit 8 v), ucast v]"

definition padding :: "nat \<Rightarrow> byte list" where
  "padding len =
    (let t = (if len mod 64 < 56 then 56 - len mod 64 else 64 + 56 - len mod 64)
     in (0x80 # replicate (t - 1) 0) @ be_uint64 (push_bit 3 (of_nat len)))"

definition Sum256 :: "byte list \<Rightarrow> byte list" where
  "Sum256 data = concat (map be_uint32_bytes (blockGeneric init_sha256 (data @ padding (length data))))"

section \<open>The evidence export\<close>

text \<open>
  The structs of \<open>main.go\<close>. \<open>NetFlowBlob.Timestamp\<close> is named \<open>BlobTimestamp\<close>
  here, since \<open>NetFlowRecord\<close> has a field \<open>Timestamp\<close> too. A \<open>float64\<close> is kept as its
  64 bits; the program never computes with it. \<open>TimeRange\<close> is a map that may be nil.
\<close>

record NetFlowRecord =
  Timestamp :: "64 word"
  SrcIP :: string
  DstIP :: string
  SrcPort :: "16 word"
  DstPort :: "16 word"
  Protocol :: string
  BytesSent :: "64 word"
  PacketCount :: "64 word"
  Payload :: string

record NetFlowBlob =
  BlobID :: string
  BlobTimestamp :: "64 word"
  Record :: NetFlowRecord
  PreviousHash :: string
  Hash :: string
  DeviationScore :: "64 word"
  IsAnomaly :: bool

record EvidenceExport =
  Version :: string
  ExportedAt :: string
  ExportedBy :: string
  ChainHash :: string
  BlobCount :: "64 word"
  FirstBlobHash :: string
  LastBlobHash :: string
  TimeRange :: "(string \<rightharpoonup> string) option"
  Blobs :: "NetFlowBlob list"

section \<open>verifyEvidence\<close>

subsection \<open>Recomputing a blob's hash (lines 155-160)\<close>

definition hashInput :: "NetFlowBlob \<Rightarrow> string" where
  "hashInput blob = Sprintf ''%s|%s|%d|%d|%s|%d|%d|%d|%s''
     [Str (SrcIP (Record blob)), Str (DstIP (Record blob)),
      Uint16 (SrcPort (Record blob)), Uint16 (DstPort (Record blob)),
      Str (Protocol (Record blob)), Int64 (Timestamp (Record blob)),
      Int64 (BytesSent (Record blob)), Int64 (PacketCount (Record blob)),
      Str (PreviousHash blob)]"

definition computedHash :: "NetFlowBlob \<Rightarrow> string" where
  "computedHash blob = Sprintf ''%x'' [Bytes (Sum256 (bytes_of (hashInput blob)))]"

subsection \<open>What the run prints, and how it ends\<close>

text \<open>
  One constructor for every \<open>fmt.Printf\<close> of \<open>verifyEvidence\<close> and
  \<open>printVerificationResult\<close> that shows data of the export or of the checks, with the
  values it prints (colours, frames and the time of day are left out). Operands are
  evaluated before the call, so a slice expression that panics prints nothing of its line.
\<close>

datatype report =
    ExportParsed string string string "64 word"
  | TimeRangeLine string string
  | BlobHashMismatch nat
  | ExpectedHash string
  | ComputedHash string
  | BlobChainBreak nat
  | ExpectedPrev string
  | ActualPrev string
  | AllBlobHashesVerified nat
  | BlobsHaveHashErrors nat nat
  | ChainLinkageIntact
  | ChainBreaksDetected nat
  | StoredChainHash string
  | ComputedChainHash string
  | ChainHashVerified
  | ChainHashMismatch
  | VerifiedBanner string nat
  | FailedBanner string nat nat nat bool

text \<open>The local variables of \<open>verifyEvidence\<close> and the output so far.\<close>

record vstate =
  blobHashErrors :: nat
  chainErrors :: nat
  out :: "report list"

definition print :: "report \<Rightarrow> vstate \<Rightarrow> vstate" where
  "print r st = st\<lparr>out := out st @ [r]\<rparr>"

text \<open>
  A step either goes on with a new state or panics; the panic keeps the state it happened
  in, since what was printed before it stays printed.
\<close>

type_synonym step = "(fault \<times> vstate) + vstate"

definition state_of :: "step \<Rightarrow> vstate" where
  "state_of r = (case r of Inl (f, st) \<Rightarrow> st | Inr st \<Rightarrow> st)"

text \<open>
  The run ends with the success banner (\<open>main\<close> returns, exit status 0), with the failure
  banner and \<open>os.Exit(1)\<close>, or with an unrecovered panic (exit status 2).
\<close>

datatype outcome = Verified | Tampered | Panicked fault

fun exitStatus :: "outcome \<Rightarrow> nat" where
  "exitStatus Verified = 0"
| "exitStatus Tampered = 1"
| "exitStatus (Panicked f) = 2"

subsection \<open>The loop over the blobs (lines 153-183)\<close>

text \<open>Lines 155-169: the hash check of one blob.\<close>

definition checkBlobHash :: "nat \<Rightarrow> NetFlowBlob \<Rightarrow> vstate \<Rightarrow> step" where
  "checkBlobHash i blob st =
    (if computedHash blob \<noteq> Hash blob then
       (let st1 = st\<lparr>blobHashErrors := blobHashErrors st + 1\<rparr> in
        if blobHashErrors st1 \<le> 3 then
          (let st2 = print (BlobHashMismatch (i + 1)) st1 in
           case slice_to (Hash blob) 32 of
             Inl f \<Rightarrow> Inl (f, st2)
           | Inr expected \<Rightarrow>
               (let st3 = print (ExpectedHash (expected @ ''...'')) st2 in
                case slice_to (computedHash blob) 32 of
                  Inl f \<Rightarrow> Inl (f, st3)
                | Inr computed \<Rightarrow> Inr (print (ComputedHash (computed @ ''...'')) st3)))
        else Inr st1)
     else Inr st)"

text \<open>Lines 171-182: the linkage check of one blob.\<close>

definition checkLinkage :: "NetFlowBlob list \<Rightarrow> nat \<Rightarrow> NetFlowBlob \<Rightarrow> vstate \<Rightarrow> step" where
  "checkLinkage blobs i blob st =
    (if 0 < i then
       (let expectedPrevHash = Hash (blobs ! (i - 1)) in
        if PreviousHash blob \<noteq> expectedPrevHash then
          (let st1 = st\<lparr>chainErrors := chainErrors st + 1\<rparr> in
           if chainErrors st1 \<le> 3 then
             (let st2 = print (BlobChainBreak (i + 1)) st1 in
              case slice_to expectedPrevHash 32 of
                Inl f \<Rightarrow> Inl (f, st2)
              | Inr expected \<Rightarrow>
                  (let st3 = print (ExpectedPrev (expected @ ''...'')) st2 in
                   case slice_to (PreviousHash blob) 32 of
                     Inl f \<Rightarrow> Inl (f, st3)
                   | Inr actual \<Rightarrow> Inr (print (ActualPrev (actual @ ''...'')) st3)))
           else Inr st1)
        else Inr st)
     else Inr st)"

definition loopBody :: "NetFlowBlob list \<Rightarrow> nat \<Rightarrow> NetFlowBlob \<Rightarrow> vstate \<Rightarrow> step" where
  "loopBody blobs i blob st =
    (case checkBlobHash i blob st of
       Inl p \<Rightarrow> Inl p
     | Inr st' \<Rightarrow> checkLinkage blobs i blob st')"

text \<open>
  \<open>for i, blob := range export.Blobs\<close>: \<open>rangeLoop blobs i rest\<close> runs the iterations
  for the blobs \<open>rest\<close> that are still to come, the first of them at index \<open>i\<close> of
  \<open>blobs\<close>.
\<close>

fun rangeLoop :: "NetFlowBlob list \<Rightarrow> nat \<Rightarrow> NetFlowBlob list \<Rightarrow> vstate \<Rightarrow> step" where
  "rangeLoop blobs i [] st = Inr st"
| "rangeLoop blobs i (blob # rest) st =
    (case loopBody blobs i blob st of
       Inl p \<Rightarrow> Inl p
     | Inr st' \<Rightarrow> rangeLoop blobs (i + 1) rest st')"

subsection \<open>The chain hash (lines 199-206)\<close>

definition chainHashInput :: "NetFlowBlob list \<Rightarrow> string" where
  "chainHashInput blobs = foldl (\<lambda>builder blob. builder @ Hash blob) [] blobs"

definition computedChainHash :: "NetFlowBlob list \<Rightarrow> string" where
  "computedChainHash blobs = Sprintf ''%x'' [Bytes (Sum256 (bytes_of (chainHashInput blobs)))]"

subsection \<open>The verdict (lines 221-260) and the whole run after parsing (lines 138-218)\<close>

definition printVerificationResult ::
    "nat \<Rightarrow> nat \<Rightarrow> bool \<Rightarrow> EvidenceExport \<Rightarrow> vstate \<Rightarrow> outcome \<times> vstate" where
  "printVerificationResult blobErrors chainErrs chainHashMatch export st =
    (if blobErrors = 0 \<and> chainErrs = 0 \<and> chainHashMatch then
       (Verified, print (VerifiedBanner (ChainHash export) (length (Blobs export))) st)
     else
       (Tampered, print (FailedBanner (ChainHash export) (length (Blobs export))
                           blobErrors chainErrs chainHashMatch) st))"

definition lookup :: "(string \<rightharpoonup> string) \<Rightarrow> string \<Rightarrow> string" where
  "lookup m k = (case m k of None \<Rightarrow> [] | Some v \<Rightarrow> v)"

definition printParsed :: "EvidenceExport \<Rightarrow> vstate \<Rightarrow> vstate" where
  "printParsed export st =
    (let st1 = print (ExportParsed (Version export) (ExportedAt export) (ExportedBy export)
                        (BlobCount export)) st in
     case TimeRange export of
       None \<Rightarrow> st1
     | Some m \<Rightarrow> print (TimeRangeLine (lookup m ''start'') (lookup m ''end'')) st1)"

definition verifyEvidence :: "EvidenceExport \<Rightarrow> outcome \<times> vstate" where
  "verifyEvidence export =
    (let st0 = printParsed export \<lparr>blobHashErrors = 0, chainErrors = 0, out = []\<rparr> in
     case rangeLoop (Blobs export) 0 (Blobs export) st0 of
       Inl (f, st) \<Rightarrow> (Panicked f, st)
     | Inr st1 \<Rightarrow>
        (let st2 = print (if blobHashErrors st1 = 0
                          then AllBlobHashesVerified (length (Blobs export))
                          else BlobsHaveHashErrors (blobHashErrors st1) (length (Blobs export))) st1;
             st3 = print (if chainErrors st2 = 0
                          then ChainLinkageIntact
                          else ChainBreaksDetected (chainErrors st2)) st2;
             chainHashMatch = (computedChainHash (Blobs export) = ChainHash export)
         in
         case slice_to (ChainHash export) 32 of
           Inl f \<Rightarrow> (Panicked f, st3)
         | Inr stored \<Rightarrow>
            (let st4 = print (StoredChainHash (stored @ ''...'')) st3 in
             case slice_to (computedChainHash (Blobs export)) 32 of
               Inl f \<Rightarrow> (Panicked f, st4)
             | Inr computed \<Rightarrow>
                (let st5 = print (ComputedChainHash (computed @ ''...'')) st4;
                     st6 = print (if chainHashMatch then ChainHashVerified
                                  else ChainHashMismatch) st5
                 in printVerificationResult (blobHashErrors st6) (chainErrors st6)
                      chainHashMatch export st6))))"

section \<open>The checks as the specification words them\<close>

text \<open>The fields of the hash input, joined with a separator as \<open>strings.Join\<close> does.\<close>

fun join :: "string \<Rightarrow> string list \<Rightarrow> string" where
  "join sep [] = []"
| "join sep [x] = x"
| "join sep (x # y # ys) = x @ sep @ join sep (y # ys)"

definition spec_hashInput :: "NetFlowBlob \<Rightarrow> string" where
  "spec_hashInput blob = join ''|''
     [SrcIP (Record blob), DstIP (Record blob),
      decimal (unat (SrcPort (Record blob))), decimal (unat (DstPort (Record blob))),
      Protocol (Record blob), fmt_d (sint (Timestamp (Record blob))),
      fmt_d (sint (BytesSent (Record blob))), fmt_d (sint (PacketCount (Record blob))),
      PreviousHash blob]"

text \<open>The value of a string of decimal digits.\<close>

definition digit_value :: "char \<Rightarrow> nat" where
  "digit_value c = of_char c - 48"

definition decimal_value :: "string \<Rightarrow> nat" where
  "decimal_value s = foldl (\<lambda>a c. 10 * a + digit_value c) 0 s"

definition is_lower_hex :: "char \<Rightarrow> bool" where
  "is_lower_hex c = (c \<in> set ''0123456789abcdef'')"

text \<open>The positions, counted from 0, where the recomputed hash differs from the stored
  one, and the positions whose stored previous hash differs from the stored hash of the
  blob before.\<close>

definition hashMismatch :: "NetFlowBlob \<Rightarrow> bool" where
  "hashMismatch blob = (computedHash blob \<noteq> Hash blob)"

definition mismatchPositions :: "NetFlowBlob list \<Rightarrow> nat list" where
  "mismatchPositions blobs = filter (\<lambda>i. hashMismatch (blobs ! i)) [0..<length blobs]"

definition linkageBreak :: "NetFlowBlob list \<Rightarrow> nat \<Rightarrow> bool" where
  "linkageBreak blobs i = (PreviousHash (blobs ! i) \<noteq> Hash (blobs ! (i - 1)))"

definition breakPositions :: "NetFlowBlob list \<Rightarrow> nat list" where
  "breakPositions blobs = filter (linkageBreak blobs) [1..<length blobs]"

definition chainHashMatches :: "EvidenceExport \<Rightarrow> bool" where
  "chainHashMatches export =
    (fmt_x (Sum256 (bytes_of (concat (map Hash (Blobs export))))) = ChainHash export)"

definition breakAt :: "NetFlowBlob list \<Rightarrow> nat \<Rightarrow> bool" where
  "breakAt blobs i = (0 < i \<and> linkageBreak blobs i)"

text \<open>The state in which the loop starts: nothing counted, the export's metadata printed.\<close>

definition initial :: "EvidenceExport \<Rightarrow> vstate" where
  "initial export = printParsed export \<lparr>blobHashErrors = 0, chainErrors = 0, out = []\<rparr>"

section \<open>Finished runs and sample exports\<close>

text \<open>A run has finished when it reached a verdict, that is, it did not panic.\<close>

fun finished :: "outcome \<Rightarrow> bool" where
  "finished (Panicked f) = False"
| "finished oc = True"

text \<open>Blobs and exports whose other fields have Go's zero values, as \<open>json.Unmarshal\<close>
  leaves the fields that the document omits.\<close>

definition zeroRecord :: NetFlowRecord where
  "zeroRecord = \<lparr>Timestamp = 0, SrcIP = [], DstIP = [], SrcPort = 0, DstPort = 0, Protocol = [],
                 BytesSent = 0, PacketCount = 0, Payload = []\<rparr>"

definition blobWith :: "string \<Rightarrow> string \<Rightarrow> NetFlowBlob" where
  "blobWith prev h = \<lparr>BlobID = [], BlobTimestamp = 0, Record = zeroRecord, PreviousHash = prev,
                      Hash = h, DeviationScore = 0, IsAnomaly = False\<rparr>"

definition exportWith :: "string \<Rightarrow> NetFlowBlob list \<Rightarrow> EvidenceExport" where
  "exportWith ch blobs = \<lparr>Version = [], ExportedAt = [], ExportedBy = [], ChainHash = ch,
                          BlobCount = 0, FirstBlobHash = [], LastBlobHash = [],
                          TimeRange = None, Blobs = blobs\<rparr>"

text \<open>Three blobs with stored hashes of 32 bytes; the second does not link to the first.\<close>

definition brokenLinkExport :: EvidenceExport where
  "brokenLinkExport = exportWith ''cccccccccccccccccccccccccccccccc''
     [blobWith [] ''aaaaaaaaaaaaaaaaaaaaaaaaaaaaaaaa'',
      blobWith ''bbbbbbbbbbbbbbbbbbbbbbbbbbbbbbbb'' ''aaaaaaaaaaaaaaaaaaaaaaaaaaaaaaaa'',
      blobWith ''aaaaaaaaaaaaaaaaaaaaaaaaaaaaaaaa'' ''dddddddddddddddddddddddddddddddd'']"

text \<open>The lines that the loop prints, and states and steps that agree on the counters
  (and on the panic, when there is one).\<close>

fun is_loop_report :: "report \<Rightarrow> bool" where
  "is_loop_report (BlobHashMismatch n) = True"
| "is_loop_report (ExpectedHash s) = True"
| "is_loop_report (ComputedHash s) = True"
| "is_loop_report (BlobChainBreak n) = True"
| "is_loop_report (ExpectedPrev s) = True"
| "is_loop_report (ActualPrev s) = True"
| "is_loop_report r = False"

definition same_counts :: "vstate \<Rightarrow> vstate \<Rightarrow> bool" where
  "same_counts st st' = (blobHashErrors st = blobHashErrors st' \<and> chainErrors st = chainErrors st')"

fun same_step :: "step \<Rightarrow> step \<Rightarrow> bool" where
  "same_step (Inr st) (Inr st') = same_counts st st'"
| "same_step (Inl (f, st)) (Inl (f', st')) = (f = f' \<and> same_counts st st')"
| "same_step r r' = False"

text \<open>The export \<open>brokenLinkExport\<close> with other metadata.\<close>

definition annotatedExport :: EvidenceExport where
  "annotatedExport = brokenLinkExport
     \<lparr>Version := ''2.0'', ExportedAt := ''2026-02-03T10:00:00Z'', ExportedBy := ''auditor'',
      BlobCount := 99, FirstBlobHash := ''ff'', LastBlobHash := ''00'',
      TimeRange := Some [''start'' \<mapsto> ''2026-01-01'']\<rparr>"

text \<open>The SHA-256 digest of the empty byte string, in hexadecimal.\<close>

definition emptyInputDigest :: string where
  "emptyInputDigest = ''e3b0c44298fc1c149afbf4c8996fb92427ae41e4649b934ca495991b7852b855''"

text \<open>Two blobs whose stored hashes have three bytes; the second links to the first.\<close>

definition shortHashesExport :: EvidenceExport where
  "shortHashesExport = exportWith emptyInputDigest [blobWith [] ''abc'', blobWith ''abc'' ''abd'']"

text \<open>Three blobs with stored hashes of 32 bytes: the second has a \<open>previous_hash\<close> of
  five bytes, the third one that is not the stored hash of the second.\<close>

definition unlinkedShortExport :: EvidenceExport where
  "unlinkedShortExport = exportWith emptyInputDigest
     [blobWith [] ''aaaaaaaaaaaaaaaaaaaaaaaaaaaaaaaa'',
      blobWith ''short'' ''aaaaaaaaaaaaaaaaaaaaaaaaaaaaaaaa'',
      blobWith ''bbbbbbbbbbbbbbbbbbbbbbbbbbbbbbbb'' ''aaaaaaaaaaaaaaaaaaaaaaaaaaaaaaaa'']"

text \<open>One blob whose stored hash is \<open>abc\<close>, and as \<open>chain_hash\<close> the SHA-256 digest of
  \<open>abc\<close>.\<close>

definition shortHashRightChainExport :: EvidenceExport where
  "shortHashRightChainExport =
     exportWith ''ba7816bf8f01cfea414140de5dae2223b00361a396177a9cb410ff61f20015ad''
       [blobWith [] ''abc'']"

text \<open>Three blobs whose stored hashes have 40, 0 and 65 bytes; each links to the one
  before.\<close>

definition otherLengthsExport :: EvidenceExport where
  "otherLengthsExport = exportWith emptyInputDigest
     [blobWith [] ''0123456789abcdef0123456789abcdef01234567'',
      blobWith ''0123456789abcdef0123456789abcdef01234567'' [],
      blobWith [] ''0123456789abcdef0123456789abcdef0123456789abcdef0123456789abcdef0'']"

text \<open>The nine strings that enter the hash input.\<close>

definition hashFields :: "NetFlowBlob \<Rightarrow> string list" where
  "hashFields blob =
     [SrcIP (Record blob), DstIP (Record blob),
      fmt_d (uint (SrcPort (Record blob))), fmt_d (uint (DstPort (Record blob))),
      Protocol (Record blob), fmt_d (sint (Timestamp (Record blob))),
      fmt_d (sint (BytesSent (Record blob))), fmt_d (sint (PacketCount (Record blob))),
      PreviousHash blob]"

text \<open>
  An export with one blob whose stored hashes are the digests that the rules give, and the
  same blob with another \<open>bytes_sent\<close>.
\<close>

definition genuineBlob :: NetFlowBlob where
  "genuineBlob = blobWith [] ''9372b9a96b0522f8fcc54afaa11a2a651a85f26268b081cbbe93cab5b2c408a5''"

definition genuineExport :: EvidenceExport where
  "genuineExport =
     exportWith ''1cfcf5d7bf042b3d65850a5adb1ee1c72e4b33b395c56fb9baa361545629575f'' [genuineBlob]"

definition tamperedBlob :: NetFlowBlob where
  "tamperedBlob = genuineBlob\<lparr>Record := (Record genuineBlob)\<lparr>BytesSent := 1\<rparr>\<rparr>"

section \<open>Formatting\<close>

lemma ldigits_hex: "n < 16 \<Longrightarrow> is_lower_hex (ldigits ! n)"
  unfolding is_lower_hex_def ldigits_def by (rule nth_mem) simp

lemma unat_hi_nibble: "unat (drop_bit 4 (c::byte)) < 16"
proof -
  have "unat (drop_bit 4 c) = unat c div 16"
    by (simp add: drop_bit_eq_div unat_div)
  moreover have "unat c < 256" using unsigned_less [of c] by simp
  ultimately show ?thesis by simp
qed

lemma unat_lo_nibble: "unat ((c::byte) AND 0xF) < 16"
proof -
  have "unat (c AND 0xF) \<le> unat (0xF :: byte)"
    by (rule word_and_le1 [THEN word_le_nat_alt [THEN iffD1]])
  then show ?thesis by simp
qed

lemma length_fmt_x: "length (fmt_x bs) = 2 * length bs"
  unfolding fmt_x_def by (induction bs) simp_all

lemma fmt_x_hex: "list_all is_lower_hex (fmt_x bs)"
  unfolding fmt_x_def by (induction bs) (simp_all add: ldigits_hex unat_hi_nibble unat_lo_nibble)

lemma Sprintf_x: "Sprintf ''%x'' [Bytes bs] = fmt_x bs"
  by simp

lemma fmt_d_uint: "fmt_d (uint u) = decimal (unat u)"
  by (simp add: fmt_d_def)

lemma hashInput_spec: "hashInput blob = spec_hashInput blob"
  by (simp add: hashInput_def spec_hashInput_def fmt_d_uint)

section \<open>The digest has 32 bytes\<close>

lemma length_compress: "length hs = 8 \<Longrightarrow> length (compress hs p) = 8"
  by (simp add: compress_def Let_def split: prod.splits)

lemma length_blockGeneric: "length hs = 8 \<Longrightarrow> length (blockGeneric hs p) = 8"
proof (induction hs p rule: blockGeneric.induct)
  case (1 hs p)
  then show ?case
    by (subst blockGeneric.simps) (simp add: length_compress)
qed

lemma length_Sum256: "length (Sum256 data) = 32"
proof -
  have "length (concat (map be_uint32_bytes ws)) = 4 * length ws" for ws
    by (induction ws) (simp_all add: be_uint32_bytes_def)
  then show ?thesis
    by (simp add: Sum256_def length_blockGeneric init_sha256_def)
qed

lemma length_computedHash: "length (computedHash blob) = 64"
  by (simp add: computedHash_def length_fmt_x length_Sum256)

lemma length_computedChainHash: "length (computedChainHash blobs) = 64"
  by (simp add: computedChainHash_def length_fmt_x length_Sum256)

text \<open>\<open>decimal\<close> writes the number in base 10: reading the digits back gives it.\<close>

lemma decimal_value_decimal: "decimal_value (decimal n) = n"
proof (induction n rule: decimal.induct)
  case (1 n)
  have dv: "k < 10 \<Longrightarrow> digit_value (ldigits ! k) = k" for k
    unfolding digit_value_def ldigits_def
    by (cases "k = 0 \<or> k = 1 \<or> k = 2 \<or> k = 3 \<or> k = 4 \<or> k = 5 \<or> k = 6 \<or> k = 7 \<or> k = 8 \<or> k = 9")
       (auto)
  show ?case
  proof (cases "n < 10")
    case True
    then show ?thesis by (subst decimal.simps) (simp add: decimal_value_def dv)
  next
    case False
    then have "decimal_value (decimal (n div 10)) = n div 10" using 1 by simp
    then show ?thesis using False
      by (subst decimal.simps) (simp add: decimal_value_def dv)
  qed
qed

section \<open>The counters of the loop\<close>

lemma slice_to_ok: "n \<le> length s \<Longrightarrow> slice_to s n = Inr (take n s)"
  by (simp add: slice_to_def)

lemma slice_to_panic: "length s < n \<Longrightarrow> slice_to s n = Inl (SliceBounds n (length s))"
  by (simp add: slice_to_def)

lemma checkBlobHash_counts:
  "blobHashErrors (state_of (checkBlobHash i blob st)) =
     blobHashErrors st + (if hashMismatch blob then 1 else 0)"
  "chainErrors (state_of (checkBlobHash i blob st)) = chainErrors st"
  by (simp_all add: checkBlobHash_def hashMismatch_def state_of_def print_def slice_to_def Let_def)

lemma checkLinkage_counts:
  "chainErrors (state_of (checkLinkage blobs i blob st)) =
     chainErrors st + (if 0 < i \<and> PreviousHash blob \<noteq> Hash (blobs ! (i - 1)) then 1 else 0)"
  "blobHashErrors (state_of (checkLinkage blobs i blob st)) = blobHashErrors st"
  by (simp_all add: checkLinkage_def state_of_def print_def slice_to_def Let_def)

lemma state_of_Inr [simp]: "state_of (Inr st) = st"
  by (simp add: state_of_def)

lemma state_of_Inl [simp]: "state_of (Inl (f, st)) = st"
  by (simp add: state_of_def)

lemma loopBody_counts:
  assumes "loopBody blobs i blob st = Inr st'"
  shows "blobHashErrors st' = blobHashErrors st + (if hashMismatch blob then 1 else 0)"
    and "chainErrors st' =
           chainErrors st + (if 0 < i \<and> PreviousHash blob \<noteq> Hash (blobs ! (i - 1)) then 1 else 0)"
proof -
  from assms obtain st1 where h: "checkBlobHash i blob st = Inr st1"
    and l: "checkLinkage blobs i blob st1 = Inr st'"
    by (auto simp: loopBody_def split: sum.splits)
  from checkBlobHash_counts [of i blob st] h
  have 1: "blobHashErrors st1 = blobHashErrors st + (if hashMismatch blob then 1 else 0)"
    and 2: "chainErrors st1 = chainErrors st" by simp_all
  from checkLinkage_counts [of blobs i blob st1] l
  have 3: "chainErrors st' =
      chainErrors st1 + (if 0 < i \<and> PreviousHash blob \<noteq> Hash (blobs ! (i - 1)) then 1 else 0)"
    and 4: "blobHashErrors st' = blobHashErrors st1" by simp_all
  show "blobHashErrors st' = blobHashErrors st + (if hashMismatch blob then 1 else 0)"
    using 1 4 by simp
  show "chainErrors st' =
           chainErrors st + (if 0 < i \<and> PreviousHash blob \<noteq> Hash (blobs ! (i - 1)) then 1 else 0)"
    using 2 3 by simp
qed

lemma drop_eq_Cons:
  assumes "x # xs = drop i ys"
  shows "i < length ys" and "x = ys ! i" and "xs = drop (i + 1) ys"
proof -
  show i: "i < length ys"
  proof (rule ccontr)
    assume "\<not> i < length ys"
    then have "drop i ys = []" by simp
    with assms show False by simp
  qed
  from Cons_nth_drop_Suc [OF i] assms have "x # xs = ys ! i # drop (Suc i) ys"
    by simp
  then show "x = ys ! i" and "xs = drop (i + 1) ys"
    by simp_all
qed

lemma rangeLoop_counts:
  "rangeLoop blobs i rest st = Inr st' \<Longrightarrow> rest = drop i blobs \<Longrightarrow>
     blobHashErrors st' = blobHashErrors st + length (filter hashMismatch rest) \<and>
     chainErrors st' = chainErrors st + length (filter (breakAt blobs) [i..<i + length rest])"
proof (induction rest arbitrary: i st)
  case Nil
  then show ?case by simp
next
  case (Cons blob rest)
  from Cons.prems(1) obtain st1 where b: "loopBody blobs i blob st = Inr st1"
    and r: "rangeLoop blobs (i + 1) rest st1 = Inr st'"
    by (auto split: sum.splits)
  from drop_eq_Cons [OF Cons.prems(2)] have blob: "blob = blobs ! i"
    and rest: "rest = drop (i + 1) blobs"
    by simp_all
  note ih = Cons.IH [OF r rest]
  have "[i..<i + length (blob # rest)] = i # [Suc i..<i + length (blob # rest)]"
    by (rule upt_conv_Cons) simp
  then have up: "[i..<i + length (blob # rest)] = i # [i + 1..<i + 1 + length rest]"
    by simp
  show ?case
    using ih loopBody_counts [OF b] blob
    unfolding up by (simp add: breakAt_def linkageBreak_def)
qed

lemma checkBlobHash_clean: "\<not> hashMismatch blob \<Longrightarrow> checkBlobHash i blob st = Inr st"
  by (simp add: checkBlobHash_def hashMismatch_def)

lemma checkLinkage_clean: "\<not> breakAt blobs i \<Longrightarrow> checkLinkage blobs i (blobs ! i) st = Inr st"
  by (auto simp: checkLinkage_def breakAt_def linkageBreak_def)

lemma rangeLoop_clean:
  "rest = drop i blobs \<Longrightarrow> filter hashMismatch rest = [] \<Longrightarrow>
   filter (breakAt blobs) [i..<i + length rest] = [] \<Longrightarrow>
   rangeLoop blobs i rest st = Inr st"
proof (induction rest arbitrary: i)
  case Nil
  then show ?case by simp
next
  case (Cons blob rest)
  from drop_eq_Cons [OF Cons.prems(1)] have blob: "blob = blobs ! i"
    and rest: "rest = drop (i + 1) blobs"
    by simp_all
  have "[i..<i + length (blob # rest)] = i # [Suc i..<i + length (blob # rest)]"
    by (rule upt_conv_Cons) simp
  then have up: "[i..<i + length (blob # rest)] = i # [i + 1..<i + 1 + length rest]"
    by simp
  from Cons.prems(2) have h: "\<not> hashMismatch blob" and hr: "filter hashMismatch rest = []"
    by (auto split: if_splits)
  from Cons.prems(3) have b: "\<not> breakAt blobs i"
    and br: "filter (breakAt blobs) [i + 1..<i + 1 + length rest] = []"
    unfolding up by (auto split: if_splits)
  have "loopBody blobs i blob st = Inr st"
    using checkBlobHash_clean [OF h] checkLinkage_clean [OF b] blob
    by (simp add: loopBody_def)
  then show ?case
    using Cons.IH [OF rest hr br] by simp
qed

lemma rangeLoop_append:
  "rangeLoop blobs i (xs @ ys) st =
     (case rangeLoop blobs i xs st of
        Inl p \<Rightarrow> Inl p
      | Inr st' \<Rightarrow> rangeLoop blobs (i + length xs) ys st')"
  by (induction xs arbitrary: i st) (simp_all split: sum.splits)

lemma filter_nth_positions:
  "length (filter P xs) = length (filter (\<lambda>i. P (xs ! i)) [0..<length xs])"
proof -
  have "filter P xs = filter P (map ((!) xs) [0..<length xs])"
    by (simp add: map_nth)
  also have "length \<dots> = length (filter (\<lambda>i. P (xs ! i)) [0..<length xs])"
    by (simp add: filter_map comp_def)
  finally show ?thesis .
qed

lemma mismatch_count: "length (filter hashMismatch blobs) = length (mismatchPositions blobs)"
  unfolding mismatchPositions_def by (rule filter_nth_positions)

lemma break_positions: "filter (breakAt blobs) [0..<length blobs] = breakPositions blobs"
proof (cases blobs)
  case Nil
  then show ?thesis by (simp add: breakPositions_def)
next
  case (Cons b bs)
  then have "0 < length blobs" by simp
  then have "[0..<length blobs] = 0 # [Suc 0..<length blobs]"
    by (rule upt_conv_Cons)
  then have "[0..<length blobs] = 0 # [1..<length blobs]"
    by simp
  moreover have "filter (breakAt blobs) [1..<length blobs] = filter (linkageBreak blobs) [1..<length blobs]"
    by (rule filter_cong) (auto simp: breakAt_def)
  ultimately show ?thesis
    by (simp add: breakPositions_def breakAt_def)
qed

lemma chainHashInput_concat: "chainHashInput blobs = concat (map Hash blobs)"
proof -
  have "foldl (\<lambda>builder blob. builder @ Hash blob) acc blobs = acc @ concat (map Hash blobs)" for acc
    by (induction blobs arbitrary: acc) simp_all
  then show ?thesis by (simp add: chainHashInput_def)
qed

lemma chainHashMatches_iff: "chainHashMatches export \<longleftrightarrow> computedChainHash (Blobs export) = ChainHash export"
  by (simp add: chainHashMatches_def computedChainHash_def chainHashInput_concat)

lemma initial_counts: "blobHashErrors (initial export) = 0" "chainErrors (initial export) = 0"
  by (simp_all add: initial_def printParsed_def print_def Let_def split: option.splits)

section \<open>The run after the loop\<close>

lemma verifyEvidence_loop_panics:
  "rangeLoop (Blobs export) 0 (Blobs export) (initial export) = Inl (f, st) \<Longrightarrow>
   verifyEvidence export = (Panicked f, st)"
  by (simp add: verifyEvidence_def initial_def)

lemma verifyEvidence_chain_hash_panics:
  "rangeLoop (Blobs export) 0 (Blobs export) (initial export) = Inr st \<Longrightarrow>
   length (ChainHash export) < 32 \<Longrightarrow>
   fst (verifyEvidence export) = Panicked (SliceBounds 32 (length (ChainHash export)))"
  by (simp add: verifyEvidence_def initial_def slice_to_def Let_def)

lemma verifyEvidence_finishes:
  assumes "rangeLoop (Blobs export) 0 (Blobs export) (initial export) = Inr st"
    and "32 \<le> length (ChainHash export)"
  shows "fst (verifyEvidence export) =
           (if blobHashErrors st = 0 \<and> chainErrors st = 0 \<and> chainHashMatches export
            then Verified else Tampered)"
    and "blobHashErrors (snd (verifyEvidence export)) = blobHashErrors st"
    and "chainErrors (snd (verifyEvidence export)) = chainErrors st"
  using assms
  by (simp_all add: verifyEvidence_def initial_def slice_to_def Let_def length_computedChainHash
      printVerificationResult_def print_def chainHashMatches_iff)

lemma rangeLoop_whole_counts:
  assumes "rangeLoop blobs 0 blobs st = Inr st'"
  shows "blobHashErrors st' = blobHashErrors st + length (mismatchPositions blobs)"
    and "chainErrors st' = chainErrors st + length (breakPositions blobs)"
  using rangeLoop_counts [OF assms] by (simp_all add: mismatch_count break_positions)

lemma verified_iff:
  "fst (verifyEvidence export) = Verified \<longleftrightarrow>
     mismatchPositions (Blobs export) = [] \<and> breakPositions (Blobs export) = [] \<and>
     chainHashMatches export"
proof
  assume v: "fst (verifyEvidence export) = Verified"
  show "mismatchPositions (Blobs export) = [] \<and> breakPositions (Blobs export) = [] \<and>
     chainHashMatches export"
  proof (cases "rangeLoop (Blobs export) 0 (Blobs export) (initial export)")
    case (Inl p)
    then show ?thesis using v verifyEvidence_loop_panics [of export "fst p" "snd p"] by simp
  next
    case (Inr st)
    show ?thesis
    proof (cases "32 \<le> length (ChainHash export)")
      case True
      from verifyEvidence_finishes(1) [OF Inr True] v
      have "blobHashErrors st = 0 \<and> chainErrors st = 0 \<and> chainHashMatches export"
        by (simp split: if_splits)
      with rangeLoop_whole_counts [OF Inr] show ?thesis
        by (simp add: initial_counts)
    next
      case False
      with verifyEvidence_chain_hash_panics [OF Inr] v show ?thesis by simp
    qed
  qed
next
  assume a: "mismatchPositions (Blobs export) = [] \<and> breakPositions (Blobs export) = [] \<and>
     chainHashMatches export"
  then have m: "filter hashMismatch (Blobs export) = []"
    using mismatch_count [of "Blobs export"] by simp
  from a have b: "filter (breakAt (Blobs export)) [0..<0 + length (Blobs export)] = []"
    by (simp add: break_positions)
  have loop: "rangeLoop (Blobs export) 0 (Blobs export) (initial export) = Inr (initial export)"
    by (rule rangeLoop_clean [OF _ m b]) simp
  from a have "length (ChainHash export) = 64"
    using length_computedChainHash [of "Blobs export"] by (simp add: chainHashMatches_iff)
  then have "32 \<le> length (ChainHash export)" by simp
  from verifyEvidence_finishes(1) [OF loop this] a show "fst (verifyEvidence export) = Verified"
    by (simp add: initial_counts)
qed

section \<open>Evaluating runs\<close>

lemma computedHash_neq: "length s \<noteq> 64 \<Longrightarrow> (computedHash blob = s) = False"
  using length_computedHash [of blob] by auto

lemma computedChainHash_neq: "length s \<noteq> 64 \<Longrightarrow> (computedChainHash blobs = s) = False"
  using length_computedChainHash [of blobs] by auto

lemmas run_simps = verifyEvidence_def printParsed_def print_def loopBody_def checkBlobHash_def
  checkLinkage_def slice_to_def Let_def length_computedHash length_computedChainHash
  printVerificationResult_def computedHash_neq computedChainHash_neq
  blobWith_def exportWith_def zeroRecord_def

lemma verifyEvidence_finished_counts:
  assumes "finished (fst (verifyEvidence export))"
  shows "blobHashErrors (snd (verifyEvidence export)) = length (mismatchPositions (Blobs export))"
    and "chainErrors (snd (verifyEvidence export)) = length (breakPositions (Blobs export))"
proof -
  obtain st where loop: "rangeLoop (Blobs export) 0 (Blobs export) (initial export) = Inr st"
    using assms verifyEvidence_loop_panics [of export]
    by (cases "rangeLoop (Blobs export) 0 (Blobs export) (initial export)") auto
  have len: "32 \<le> length (ChainHash export)"
    using assms verifyEvidence_chain_hash_panics [OF loop] by (cases "32 \<le> length (ChainHash export)") auto
  show "blobHashErrors (snd (verifyEvidence export)) = length (mismatchPositions (Blobs export))"
    using verifyEvidence_finishes(2) [OF loop len] rangeLoop_whole_counts(1) [OF loop]
    by (simp add: initial_counts)
  show "chainErrors (snd (verifyEvidence export)) = length (breakPositions (Blobs export))"
    using verifyEvidence_finishes(3) [OF loop len] rangeLoop_whole_counts(2) [OF loop]
    by (simp add: initial_counts)
qed

section \<open>Characters of the recomputed hash\<close>

lemma hex_not_continuation: "is_lower_hex c \<Longrightarrow> (of_char c :: byte) AND 0xC0 \<noteq> 0x80"
  unfolding is_lower_hex_def by auto

lemma rune_count_hex: "list_all is_lower_hex s \<Longrightarrow> rune_count s = length s"
  unfolding rune_count_def by (induction s) (simp_all add: hex_not_continuation)

lemma rune_count_computedHash: "rune_count (computedHash blob) = 64"
  using rune_count_hex [of "computedHash blob"]
  by (simp add: computedHash_def fmt_x_hex length_fmt_x length_Sum256)

lemma length_filter_mono:
  "(\<And>x. x \<in> set xs \<Longrightarrow> P x \<Longrightarrow> Q x) \<Longrightarrow> length (filter P xs) \<le> length (filter Q xs)"
  by (induction xs) auto

section \<open>What the loop prints\<close>

lemma checkBlobHash_out:
  "\<not> is_loop_report r \<Longrightarrow>
   r \<in> set (out (state_of (checkBlobHash i blob st))) \<longleftrightarrow> r \<in> set (out st)"
  by (auto simp: checkBlobHash_def print_def slice_to_def Let_def)

lemma checkLinkage_out:
  "\<not> is_loop_report r \<Longrightarrow>
   r \<in> set (out (state_of (checkLinkage blobs i blob st))) \<longleftrightarrow> r \<in> set (out st)"
  by (auto simp: checkLinkage_def print_def slice_to_def Let_def)

lemma loopBody_out:
  "\<not> is_loop_report r \<Longrightarrow>
   r \<in> set (out (state_of (loopBody blobs i blob st))) \<longleftrightarrow> r \<in> set (out st)"
proof (cases "checkBlobHash i blob st")
  case (Inl p)
  assume "\<not> is_loop_report r"
  from checkBlobHash_out [OF this, of i blob st] Inl show ?thesis
    by (simp add: loopBody_def)
next
  case (Inr st1)
  assume n: "\<not> is_loop_report r"
  from checkBlobHash_out [OF n, of i blob st] checkLinkage_out [OF n, of blobs i blob st1] Inr
  show ?thesis
    by (simp add: loopBody_def)
qed

lemma rangeLoop_out:
  "\<not> is_loop_report r \<Longrightarrow>
   r \<in> set (out (state_of (rangeLoop blobs i rest st))) \<longleftrightarrow> r \<in> set (out st)"
proof (induction rest arbitrary: i st)
  case Nil
  then show ?case by simp
next
  case (Cons blob rest)
  show ?case
  proof (cases "loopBody blobs i blob st")
    case (Inl p)
    with loopBody_out [OF Cons.prems, of blobs i blob st] show ?thesis by simp
  next
    case (Inr st1)
    with loopBody_out [OF Cons.prems, of blobs i blob st] Cons.IH [OF Cons.prems, of "i + 1" st1]
    show ?thesis by simp
  qed
qed

lemma initial_out:
  "ChainHashVerified \<notin> set (out (initial export))" "ChainHashMismatch \<notin> set (out (initial export))"
  by (simp_all add: initial_def printParsed_def print_def Let_def split: option.splits)

lemma chain_hash_reports:
  "ChainHashVerified \<in> set (out (snd (verifyEvidence export))) \<longleftrightarrow>
     finished (fst (verifyEvidence export)) \<and> computedChainHash (Blobs export) = ChainHash export"
  "ChainHashMismatch \<in> set (out (snd (verifyEvidence export))) \<longleftrightarrow>
     finished (fst (verifyEvidence export)) \<and> computedChainHash (Blobs export) \<noteq> ChainHash export"
proof -
  let ?loop = "rangeLoop (Blobs export) 0 (Blobs export) (initial export)"
  have v: "ChainHashVerified \<notin> set (out (state_of ?loop))"
    using rangeLoop_out [of ChainHashVerified] by (simp add: initial_out)
  have m: "ChainHashMismatch \<notin> set (out (state_of ?loop))"
    using rangeLoop_out [of ChainHashMismatch] by (simp add: initial_out)
  have "(ChainHashVerified \<in> set (out (snd (verifyEvidence export))) \<longleftrightarrow>
     finished (fst (verifyEvidence export)) \<and> computedChainHash (Blobs export) = ChainHash export) \<and>
    (ChainHashMismatch \<in> set (out (snd (verifyEvidence export))) \<longleftrightarrow>
     finished (fst (verifyEvidence export)) \<and> computedChainHash (Blobs export) \<noteq> ChainHash export)"
  proof (cases ?loop)
    case (Inl p)
    with v m verifyEvidence_loop_panics [of export "fst p" "snd p"] show ?thesis
      by (cases p) simp
  next
    case (Inr st)
    with v m show ?thesis
      by (simp add: verifyEvidence_def initial_def [symmetric] slice_to_def Let_def
          length_computedChainHash printVerificationResult_def print_def)
  qed
  then show "ChainHashVerified \<in> set (out (snd (verifyEvidence export))) \<longleftrightarrow>
     finished (fst (verifyEvidence export)) \<and> computedChainHash (Blobs export) = ChainHash export"
    and "ChainHashMismatch \<in> set (out (snd (verifyEvidence export))) \<longleftrightarrow>
     finished (fst (verifyEvidence export)) \<and> computedChainHash (Blobs export) \<noteq> ChainHash export"
    by simp_all
qed

section \<open>The output so far does not steer the run\<close>

lemma checkBlobHash_same:
  "same_counts st st' \<Longrightarrow> same_step (checkBlobHash i blob st) (checkBlobHash i blob st')"
  by (simp add: checkBlobHash_def same_counts_def print_def slice_to_def Let_def)

lemma checkLinkage_same:
  "same_counts st st' \<Longrightarrow> same_step (checkLinkage blobs i blob st) (checkLinkage blobs i blob st')"
  by (simp add: checkLinkage_def same_counts_def print_def slice_to_def Let_def)

lemma loopBody_same:
  assumes "same_counts st st'"
  shows "same_step (loopBody blobs i blob st) (loopBody blobs i blob st')"
proof -
  from checkBlobHash_same [OF assms, of i blob]
  show ?thesis
    by (cases "checkBlobHash i blob st"; cases "checkBlobHash i blob st'")
       (auto simp: loopBody_def checkLinkage_same)
qed

lemma rangeLoop_same:
  "same_counts st st' \<Longrightarrow> same_step (rangeLoop blobs i rest st) (rangeLoop blobs i rest st')"
proof (induction rest arbitrary: i st st')
  case Nil
  then show ?case by simp
next
  case (Cons blob rest)
  from loopBody_same [OF Cons.prems, of blobs i blob]
  show ?case
    by (cases "loopBody blobs i blob st"; cases "loopBody blobs i blob st'")
       (auto simp: Cons.IH)
qed

lemma initial_same: "same_counts (initial e1) (initial e2)"
  by (simp add: same_counts_def initial_counts)

section \<open>A test vector\<close>

lemma Sum256_empty: "fmt_x (Sum256 []) = emptyInputDigest"
  by code_simp

section \<open>Runs that reach the verdict\<close>

lemma checkBlobHash_completes:
  "(hashMismatch blob \<longrightarrow> 32 \<le> length (Hash blob)) \<Longrightarrow> \<exists>st'. checkBlobHash i blob st = Inr st'"
  by (simp add: checkBlobHash_def slice_to_def Let_def length_computedHash hashMismatch_def)

lemma checkLinkage_completes:
  "(breakAt blobs i \<longrightarrow> 32 \<le> length (Hash (blobs ! (i - 1))) \<and> 32 \<le> length (PreviousHash (blobs ! i))) \<Longrightarrow>
   \<exists>st'. checkLinkage blobs i (blobs ! i) st = Inr st'"
  by (simp add: checkLinkage_def slice_to_def Let_def breakAt_def linkageBreak_def)

lemma rangeLoop_completes:
  "rest = drop i blobs \<Longrightarrow>
   list_all (\<lambda>b. hashMismatch b \<longrightarrow> 32 \<le> length (Hash b)) rest \<Longrightarrow>
   list_all (\<lambda>j. breakAt blobs j \<longrightarrow>
               32 \<le> length (Hash (blobs ! (j - 1))) \<and> 32 \<le> length (PreviousHash (blobs ! j)))
     [i..<i + length rest] \<Longrightarrow>
   \<exists>st'. rangeLoop blobs i rest st = Inr st'"
proof (induction rest arbitrary: i st)
  case Nil
  then show ?case by simp
next
  case (Cons blob rest)
  from drop_eq_Cons [OF Cons.prems(1)] have blob: "blob = blobs ! i"
    and rest: "rest = drop (i + 1) blobs"
    by simp_all
  have "[i..<i + length (blob # rest)] = i # [Suc i..<i + length (blob # rest)]"
    by (rule upt_conv_Cons) simp
  then have up: "[i..<i + length (blob # rest)] = i # [i + 1..<i + 1 + length rest]"
    by simp
  from Cons.prems(2) obtain st1 where h: "checkBlobHash i blob st = Inr st1"
    using checkBlobHash_completes [of blob i st] by auto
  from Cons.prems(3) obtain st2 where l: "checkLinkage blobs i blob st1 = Inr st2"
    unfolding up using checkLinkage_completes [of blobs i st1] blob by auto
  from Cons.prems(2) have r2: "list_all (\<lambda>b. hashMismatch b \<longrightarrow> 32 \<le> length (Hash b)) rest"
    by simp
  from Cons.prems(3) have r3: "list_all (\<lambda>j. breakAt blobs j \<longrightarrow>
               32 \<le> length (Hash (blobs ! (j - 1))) \<and> 32 \<le> length (PreviousHash (blobs ! j)))
     [i + 1..<i + 1 + length rest]"
    unfolding up by simp
  from Cons.IH [OF rest r2 r3, of st2] h l show ?case
    by (simp add: loopBody_def)
qed

lemma verifyEvidence_finishes_on_long_strings:
  assumes "list_all (\<lambda>b. 32 \<le> length (Hash b) \<and> 32 \<le> length (PreviousHash b)) (Blobs export)"
    and "32 \<le> length (ChainHash export)"
  shows "finished (fst (verifyEvidence export))"
proof -
  let ?bs = "Blobs export"
  have a: "list_all (\<lambda>b. hashMismatch b \<longrightarrow> 32 \<le> length (Hash b)) ?bs"
    using assms(1) by (simp add: list_all_iff)
  have b: "list_all (\<lambda>j. breakAt ?bs j \<longrightarrow>
               32 \<le> length (Hash (?bs ! (j - 1))) \<and> 32 \<le> length (PreviousHash (?bs ! j)))
     [0..<0 + length ?bs]"
    using assms(1) by (auto simp: list_all_iff breakAt_def)
  from rangeLoop_completes [OF _ a b, of "initial export"]
  obtain st where "rangeLoop ?bs 0 ?bs (initial export) = Inr st" by auto
  from verifyEvidence_finishes(1) [OF this assms(2)] show ?thesis by simp
qed

lemma filter_eq_index: "i < n \<Longrightarrow> filter (\<lambda>j. j = i) [0..<n] = [i]"
proof (induction n)
  case 0
  then show ?case by simp
next
  case (Suc n)
  show ?case
  proof (cases "i = n")
    case True
    have "filter (\<lambda>j. j = n) [0..<n] = []" by (simp add: filter_empty_conv)
    with True show ?thesis by simp
  next
    case False
    with Suc show ?thesis by simp
  qed
qed

lemma filter_positions_Nil:
  "filter P [m..<n] = [] \<Longrightarrow> m \<le> j \<Longrightarrow> j < n \<Longrightarrow> \<not> P j"
  by (simp add: filter_empty_conv)

section \<open>A changed field changes the hash input\<close>

lemma hashInput_join: "hashInput blob = join ''|'' (hashFields blob)"
  by (simp add: hashInput_def hashFields_def)

lemma join_Cons: "join sep (x # xs) = x @ (if xs = [] then [] else sep @ join sep xs)"
  by (cases xs) simp_all

lemma join_changed_once: "join sep (pre @ x # post) = join sep (pre @ y # post) \<Longrightarrow> x = y"
proof (induction pre)
  case Nil
  then show ?case by (simp add: join_Cons)
next
  case (Cons a pre)
  then show ?case by (simp add: join_Cons)
qed

lemma decimal_inj: "decimal m = decimal n \<Longrightarrow> m = n"
  by (metis decimal_value_decimal)

lemma decimal_digits: "set (decimal n) \<subseteq> set ''0123456789''"
proof (induction n rule: decimal.induct)
  case (1 n)
  have d: "k < 10 \<Longrightarrow> ldigits ! k \<in> set ''0123456789''" for k
  proof -
    assume k: "k < 10"
    then have "k = 0 \<or> k = 1 \<or> k = 2 \<or> k = 3 \<or> k = 4 \<or> k = 5 \<or> k = 6 \<or> k = 7 \<or> k = 8 \<or> k = 9"
      by arith
    then show ?thesis by (auto simp: ldigits_def)
  qed
  show ?case
  proof (cases "n < 10")
    case True
    with d [of n] show ?thesis by (subst decimal.simps) simp
  next
    case False
    with 1 d [of "n mod 10"] show ?thesis by (subst decimal.simps) simp
  qed
qed

lemma decimal_no_sign: "CHR ''-'' # s \<noteq> decimal n"
proof
  assume "CHR ''-'' # s = decimal n"
  then have "CHR ''-'' \<in> set (decimal n)" by (metis list.set_intros(1))
  with decimal_digits [of n] show False by auto
qed

lemma fmt_d_inj: "fmt_d i = fmt_d j \<Longrightarrow> i = j"
  using decimal_no_sign [of "decimal (nat (- i))" "nat j"]
    decimal_no_sign [of "decimal (nat (- j))" "nat i"]
  by (auto simp: fmt_d_def split: if_splits dest!: decimal_inj)

lemma changed_field_changes_hashInput:
  assumes "hashFields blob = pre @ x # post" and "hashFields blob' = pre @ y # post" and "x \<noteq> y"
  shows "hashInput blob \<noteq> hashInput blob'"
  using assms join_changed_once [of "''|''" pre x post y] by (auto simp: hashInput_join)

lemma changed_record_field_changes_hashInput:
  shows "src \<noteq> SrcIP (Record blob) \<Longrightarrow>
       hashInput (blob\<lparr>Record := (Record blob)\<lparr>SrcIP := src\<rparr>\<rparr>) \<noteq> hashInput blob"
    and "dst \<noteq> DstIP (Record blob) \<Longrightarrow>
       hashInput (blob\<lparr>Record := (Record blob)\<lparr>DstIP := dst\<rparr>\<rparr>) \<noteq> hashInput blob"
    and "sp \<noteq> SrcPort (Record blob) \<Longrightarrow>
       hashInput (blob\<lparr>Record := (Record blob)\<lparr>SrcPort := sp\<rparr>\<rparr>) \<noteq> hashInput blob"
    and "dp \<noteq> DstPort (Record blob) \<Longrightarrow>
       hashInput (blob\<lparr>Record := (Record blob)\<lparr>DstPort := dp\<rparr>\<rparr>) \<noteq> hashInput blob"
    and "proto \<noteq> Protocol (Record blob) \<Longrightarrow>
       hashInput (blob\<lparr>Record := (Record blob)\<lparr>Protocol := proto\<rparr>\<rparr>) \<noteq> hashInput blob"
    and "ts \<noteq> Timestamp (Record blob) \<Longrightarrow>
       hashInput (blob\<lparr>Record := (Record blob)\<lparr>Timestamp := ts\<rparr>\<rparr>) \<noteq> hashInput blob"
    and "n \<noteq> BytesSent (Record blob) \<Longrightarrow>
       hashInput (blob\<lparr>Record := (Record blob)\<lparr>BytesSent := n\<rparr>\<rparr>) \<noteq> hashInput blob"
    and "pc \<noteq> PacketCount (Record blob) \<Longrightarrow>
       hashInput (blob\<lparr>Record := (Record blob)\<lparr>PacketCount := pc\<rparr>\<rparr>) \<noteq> hashInput blob"
proof -
  have s: "fmt_d (sint a) = fmt_d (sint b) \<longleftrightarrow> a = b" for a b :: "64 word"
    by (auto dest!: fmt_d_inj signed_word_eqI)
  have u: "fmt_d (uint a) = fmt_d (uint b) \<longleftrightarrow> a = b" for a b :: "16 word"
    by (auto dest!: fmt_d_inj word_uint_eqI)
  show "hashInput (blob\<lparr>Record := (Record blob)\<lparr>SrcIP := src\<rparr>\<rparr>) \<noteq> hashInput blob"
    if "src \<noteq> SrcIP (Record blob)"
    using that
    by (intro changed_field_changes_hashInput
        [where pre = "take 0 (hashFields blob)" and post = "drop 1 (hashFields blob)"])
       (simp add: hashFields_def s u)+
  show "hashInput (blob\<lparr>Record := (Record blob)\<lparr>DstIP := dst\<rparr>\<rparr>) \<noteq> hashInput blob"
    if "dst \<noteq> DstIP (Record blob)"
    using that
    by (intro changed_field_changes_hashInput
        [where pre = "take 1 (hashFields blob)" and post = "drop 2 (hashFields blob)"])
       (simp add: hashFields_def s u)+
  show "hashInput (blob\<lparr>Record := (Record blob)\<lparr>SrcPort := sp\<rparr>\<rparr>) \<noteq> hashInput blob"
    if "sp \<noteq> SrcPort (Record blob)"
    using that
    by (intro changed_field_changes_hashInput
        [where pre = "take 2 (hashFields blob)" and post = "drop 3 (hashFields blob)"])
       (simp add: hashFields_def s u)+
  show "hashInput (blob\<lparr>Record := (Record blob)\<lparr>DstPort := dp\<rparr>\<rparr>) \<noteq> hashInput blob"
    if "dp \<noteq> DstPort (Record blob)"
    using that
    by (intro changed_field_changes_hashInput
        [where pre = "take 3 (hashFields blob)" and post = "drop 4 (hashFields blob)"])
       (simp add: hashFields_def s u)+
  show "hashInput (blob\<lparr>Record := (Record blob)\<lparr>Protocol := proto\<rparr>\<rparr>) \<noteq> hashInput blob"
    if "proto \<noteq> Protocol (Record blob)"
    using that
    by (intro changed_field_changes_hashInput
        [where pre = "take 4 (hashFields blob)" and post = "drop 5 (hashFields blob)"])
       (simp add: hashFields_def s u)+
  show "hashInput (blob\<lparr>Record := (Record blob)\<lparr>Timestamp := ts\<rparr>\<rparr>) \<noteq> hashInput blob"
    if "ts \<noteq> Timestamp (Record blob)"
    using that
    by (intro changed_field_changes_hashInput
        [where pre = "take 5 (hashFields blob)" and post = "drop 6 (hashFields blob)"])
       (simp add: hashFields_def s u)+
  show "hashInput (blob\<lparr>Record := (Record blob)\<lparr>BytesSent := n\<rparr>\<rparr>) \<noteq> hashInput blob"
    if "n \<noteq> BytesSent (Record blob)"
    using that
    by (intro changed_field_changes_hashInput
        [where pre = "take 6 (hashFields blob)" and post = "drop 7 (hashFields blob)"])
       (simp add: hashFields_def s u)+
  show "hashInput (blob\<lparr>Record := (Record blob)\<lparr>PacketCount := pc\<rparr>\<rparr>) \<noteq> hashInput blob"
    if "pc \<noteq> PacketCount (Record blob)"
    using that
    by (intro changed_field_changes_hashInput
        [where pre = "take 7 (hashFields blob)" and post = "drop 8 (hashFields blob)"])
       (simp add: hashFields_def s u)+
qed

section \<open>Digests of the sample export\<close>

lemma hashInput_genuineBlob: "hashInput genuineBlob = ''||0|0||0|0|0|''"
  by (simp add: hashInput_def genuineBlob_def blobWith_def zeroRecord_def fmt_d_def
      decimal.simps ldigits_def)

lemma hashInput_tamperedBlob: "hashInput tamperedBlob = ''||0|0||0|1|0|''"
  by (simp add: hashInput_def tamperedBlob_def genuineBlob_def blobWith_def zeroRecord_def
      fmt_d_def decimal.simps ldigits_def)

lemma digest_genuine:
  "fmt_x (Sum256 (bytes_of ''||0|0||0|0|0|'')) =
     ''9372b9a96b0522f8fcc54afaa11a2a651a85f26268b081cbbe93cab5b2c408a5''"
  by code_simp

lemma digest_tampered:
  "fmt_x (Sum256 (bytes_of ''||0|0||0|1|0|'')) =
     ''e5a645a2cb1bdc52f12c74148945ecf84c8db93f0fc48ead1312e56b77285a15''"
  by code_simp

lemma digest_chain:
  "fmt_x (Sum256 (bytes_of ''9372b9a96b0522f8fcc54afaa11a2a651a85f26268b081cbbe93cab5b2c408a5'')) =
     ''1cfcf5d7bf042b3d65850a5adb1ee1c72e4b33b395c56fb9baa361545629575f''"
  by code_simp

lemma computedHash_genuineBlob: "computedHash genuineBlob = Hash genuineBlob"
  by (simp add: computedHash_def hashInput_genuineBlob digest_genuine)
     (simp add: genuineBlob_def blobWith_def)

lemma computedHash_tamperedBlob:
  "computedHash tamperedBlob = ''e5a645a2cb1bdc52f12c74148945ecf84c8db93f0fc48ead1312e56b77285a15''"
  by (simp add: computedHash_def hashInput_tamperedBlob digest_tampered)

lemma genuineExport_verified: "fst (verifyEvidence genuineExport) = Verified"
  unfolding verified_iff
  by (simp add: genuineExport_def exportWith_def mismatchPositions_def breakPositions_def
      hashMismatch_def computedHash_genuineBlob chainHashMatches_def)
     (simp add: genuineBlob_def blobWith_def digest_chain)

lemma digest_abc:
  "fmt_x (Sum256 (bytes_of ''abc'')) =
     ''ba7816bf8f01cfea414140de5dae2223b00361a396177a9cb410ff61f20015ad''"
  by code_simp

section \<open>SHA-256 is not injective\<close>

text \<open>The recomputed hash takes finitely many values, and there are infinitely many
  source addresses.\<close>

lemma computedHash_collides:
  "\<exists>s s'. s \<noteq> s' \<and>
     computedHash (blob\<lparr>Record := (Record blob)\<lparr>SrcIP := s\<rparr>\<rparr>) =
     computedHash (blob\<lparr>Record := (Record blob)\<lparr>SrcIP := s'\<rparr>\<rparr>)"
proof -
  let ?f = "\<lambda>s. computedHash (blob\<lparr>Record := (Record blob)\<lparr>SrcIP := s\<rparr>\<rparr>)"
  have "range ?f \<subseteq> {xs. set xs \<subseteq> UNIV \<and> length xs = 64}"
    by (auto simp: length_computedHash)
  moreover have "finite {xs :: string. set xs \<subseteq> UNIV \<and> length xs = 64}"
    by (rule finite_lists_length_eq) simp
  ultimately have fin: "finite (range ?f)"
    by (rule finite_subset)
  have "\<not> inj ?f"
  proof
    assume "inj ?f"
    with fin have "finite (UNIV :: string set)" by (rule finite_imageD)
    then show False by (simp add: infinite_UNIV_listI)
  qed
  then show ?thesis unfolding inj_def by blast
qed

section \<open>The recomputed hash of a blob\<close>

text \<open>
  C2. The hash that the per-blob check compares with the stored one is the SHA-256 digest,
  written as 64 lower-case hexadecimal digits, of the bytes of the nine fields \<open>src_ip\<close>,
  \<open>dst_ip\<close>, \<open>src_port\<close>, \<open>dst_port\<close>, \<open>protocol\<close>, record \<open>timestamp\<close>,
  \<open>bytes_sent\<close>, \<open>packet_count\<close> and the blob's own \<open>previous_hash\<close>, joined with
  \<open>|\<close> in this order, the numbers in base 10. The payload, the blob's identifier and
  timestamp, the deviation score and the anomaly flag do not enter it.
\<close>

theorem computedHash_sha256_of_joined_fields:
  "computedHash blob = fmt_x (Sum256 (bytes_of (spec_hashInput blob))) \<and>
   length (computedHash blob) = 64 \<and>
   list_all is_lower_hex (computedHash blob) \<and>
   computedHash (blob\<lparr>BlobID := bid, BlobTimestamp := ts, DeviationScore := ds, IsAnomaly := an,
                       Record := (Record blob)\<lparr>Payload := pl\<rparr>\<rparr>) = computedHash blob"
proof -
  have "computedHash blob = fmt_x (Sum256 (bytes_of (spec_hashInput blob)))"
    by (simp add: computedHash_def hashInput_spec)
  moreover have "list_all is_lower_hex (computedHash blob)"
    by (simp add: computedHash_def fmt_x_hex)
  moreover have "computedHash (blob\<lparr>BlobID := bid, BlobTimestamp := ts, DeviationScore := ds,
      IsAnomaly := an, Record := (Record blob)\<lparr>Payload := pl\<rparr>\<rparr>) = computedHash blob"
    by (simp add: computedHash_def hashInput_def)
  moreover note length_computedHash [of blob]
  ultimately show ?thesis
    by blast
qed

section \<open>The linkage check\<close>

text \<open>
  One linkage check, and the break count of a run that reaches its verdict.
\<close>

lemma linkage_check_counts:
  "checkLinkage blobs 0 blob st = Inr st \<and>
   chainErrors (state_of (checkLinkage blobs i blob st)) =
     chainErrors st + (if 0 < i \<and> PreviousHash blob \<noteq> Hash (blobs ! (i - 1)) then 1 else 0) \<and>
   (finished (fst (verifyEvidence export)) \<longrightarrow>
      chainErrors (snd (verifyEvidence export)) =
        length (filter (\<lambda>i. PreviousHash (Blobs export ! i) \<noteq> Hash (Blobs export ! (i - 1)))
                  [1..<length (Blobs export)]))"
proof -
  have "checkLinkage blobs 0 blob st = Inr st"
    by (simp add: checkLinkage_def)
  moreover note checkLinkage_counts(1) [of blobs i blob st]
  moreover have "finished (fst (verifyEvidence export)) \<longrightarrow>
      chainErrors (snd (verifyEvidence export)) =
        length (filter (\<lambda>i. PreviousHash (Blobs export ! i) \<noteq> Hash (Blobs export ! (i - 1)))
                  [1..<length (Blobs export)])"
    using verifyEvidence_finished_counts(2) [of export]
    by (simp add: breakPositions_def linkageBreak_def [abs_def])
  ultimately show ?thesis by blast
qed

lemma brokenLinkExport_run:
  "fst (verifyEvidence brokenLinkExport) = Tampered"
  "blobHashErrors (snd (verifyEvidence brokenLinkExport)) = 3"
  "chainErrors (snd (verifyEvidence brokenLinkExport)) = 1"
  by (simp_all add: brokenLinkExport_def run_simps)

section \<open>An empty export\<close>

text \<open>
  C8. With no blobs the computed chain hash is the SHA-256 digest of the empty byte string,
  and an export whose stored \<open>chain_hash\<close> is that digest is verified, with no mismatch
  and no break counted.
\<close>

theorem empty_export_verifies:
  assumes "Blobs export = []"
  shows "computedChainHash (Blobs export) = fmt_x (Sum256 []) \<and>
         (ChainHash export = fmt_x (Sum256 []) \<longrightarrow>
            fst (verifyEvidence export) = Verified \<and> exitStatus (fst (verifyEvidence export)) = 0 \<and>
            blobHashErrors (snd (verifyEvidence export)) = 0 \<and>
            chainErrors (snd (verifyEvidence export)) = 0)"
proof -
  have c: "computedChainHash (Blobs export) = fmt_x (Sum256 [])"
    using assms by (simp add: computedChainHash_def chainHashInput_def bytes_of_def)
  have "fst (verifyEvidence export) = Verified \<and> exitStatus (fst (verifyEvidence export)) = 0 \<and>
            blobHashErrors (snd (verifyEvidence export)) = 0 \<and>
            chainErrors (snd (verifyEvidence export)) = 0"
    if ch: "ChainHash export = fmt_x (Sum256 [])"
  proof -
    have v: "fst (verifyEvidence export) = Verified"
      unfolding verified_iff using assms c ch
      by (simp add: mismatchPositions_def breakPositions_def chainHashMatches_iff)
    then have "finished (fst (verifyEvidence export))" by simp
    from verifyEvidence_finished_counts [OF this] v assms show ?thesis
      by (simp add: mismatchPositions_def breakPositions_def)
  qed
  with c show ?thesis by blast
qed

theorem empty_export_verifies_witness:
  "Blobs (exportWith emptyInputDigest []) = [] \<and>
   computedChainHash (Blobs (exportWith emptyInputDigest [])) = emptyInputDigest \<and>
   fst (verifyEvidence (exportWith emptyInputDigest [])) = Verified \<and>
   exitStatus (fst (verifyEvidence (exportWith emptyInputDigest []))) = 0 \<and>
   blobHashErrors (snd (verifyEvidence (exportWith emptyInputDigest []))) = 0 \<and>
   chainErrors (snd (verifyEvidence (exportWith emptyInputDigest []))) = 0"
proof -
  have b: "Blobs (exportWith emptyInputDigest []) = []"
    by (simp add: exportWith_def)
  have c: "ChainHash (exportWith emptyInputDigest []) = fmt_x (Sum256 [])"
    by (simp add: exportWith_def Sum256_empty)
  from empty_export_verifies [OF b] b c show ?thesis
    by (simp add: Sum256_empty)
qed

section \<open>Advisory metadata\<close>

text \<open>
  C9. Two exports with the same blobs and the same \<open>chain_hash\<close> end in the same way,
  with the same mismatch count, break count, chain hash comparison and exit status,
  whatever their \<open>version\<close>, \<open>exported_at\<close>, \<open>exported_by\<close>, \<open>blob_count\<close>,
  \<open>first_blob_hash\<close>, \<open>last_blob_hash\<close> and \<open>time_range\<close> are.
\<close>

theorem verdict_independent_of_metadata:
  assumes "Blobs e1 = Blobs e2" and "ChainHash e1 = ChainHash e2"
  shows "fst (verifyEvidence e1) = fst (verifyEvidence e2) \<and>
         blobHashErrors (snd (verifyEvidence e1)) = blobHashErrors (snd (verifyEvidence e2)) \<and>
         chainErrors (snd (verifyEvidence e1)) = chainErrors (snd (verifyEvidence e2)) \<and>
         chainHashMatches e1 = chainHashMatches e2 \<and>
         exitStatus (fst (verifyEvidence e1)) = exitStatus (fst (verifyEvidence e2))"
proof -
  let ?l1 = "rangeLoop (Blobs e1) 0 (Blobs e1) (initial e1)"
  let ?l2 = "rangeLoop (Blobs e2) 0 (Blobs e2) (initial e2)"
  have s: "same_step ?l1 ?l2"
    using rangeLoop_same [OF initial_same [of e1 e2], of "Blobs e1" 0 "Blobs e1"] assms(1)
    by simp
  have "fst (verifyEvidence e1) = fst (verifyEvidence e2) \<and>
         blobHashErrors (snd (verifyEvidence e1)) = blobHashErrors (snd (verifyEvidence e2)) \<and>
         chainErrors (snd (verifyEvidence e1)) = chainErrors (snd (verifyEvidence e2))"
  proof (cases ?l1)
    case l1: (Inl p1)
    with s obtain p2 where l2: "?l2 = Inl p2" by (cases ?l2) auto
    from s l1 l2 verifyEvidence_loop_panics [of e1 "fst p1" "snd p1"]
      verifyEvidence_loop_panics [of e2 "fst p2" "snd p2"]
    show ?thesis by (cases p1; cases p2) (simp add: same_counts_def)
  next
    case l1: (Inr st1)
    with s obtain st2 where l2: "?l2 = Inr st2" by (cases ?l2) auto
    from s l1 l2 have c: "same_counts st1 st2" by simp
    show ?thesis
      using c l1 l2 assms
      by (simp add: verifyEvidence_def initial_def [symmetric] slice_to_def Let_def same_counts_def
          length_computedChainHash printVerificationResult_def print_def)
  qed
  then show ?thesis using assms by (simp add: chainHashMatches_def)
qed

theorem verdict_independent_of_metadata_witness:
  "Blobs brokenLinkExport = Blobs annotatedExport \<and>
   ChainHash brokenLinkExport = ChainHash annotatedExport \<and>
   BlobCount brokenLinkExport \<noteq> BlobCount annotatedExport \<and>
   fst (verifyEvidence annotatedExport) = Tampered \<and>
   fst (verifyEvidence brokenLinkExport) = fst (verifyEvidence annotatedExport) \<and>
   blobHashErrors (snd (verifyEvidence brokenLinkExport)) =
     blobHashErrors (snd (verifyEvidence annotatedExport)) \<and>
   chainErrors (snd (verifyEvidence brokenLinkExport)) =
     chainErrors (snd (verifyEvidence annotatedExport)) \<and>
   chainHashMatches brokenLinkExport = chainHashMatches annotatedExport \<and>
   out (snd (verifyEvidence brokenLinkExport)) \<noteq> out (snd (verifyEvidence annotatedExport))"
proof -
  have b: "Blobs brokenLinkExport = Blobs annotatedExport"
    and c: "ChainHash brokenLinkExport = ChainHash annotatedExport"
    by (simp_all add: annotatedExport_def)
  have n: "BlobCount brokenLinkExport \<noteq> BlobCount annotatedExport"
    by (simp add: annotatedExport_def brokenLinkExport_def exportWith_def)
  have o: "out (snd (verifyEvidence brokenLinkExport)) \<noteq> out (snd (verifyEvidence annotatedExport))"
    by (simp add: annotatedExport_def brokenLinkExport_def run_simps)
  from verdict_independent_of_metadata [OF b c] b c n o show ?thesis
    by (simp add: brokenLinkExport_run)
qed

section \<open>Stored hashes of another length\<close>

text \<open>
  A stored hash that does not have 64 bytes, or not 64 characters, differs from the
  recomputed one; one hash check counts it, and a run that reaches its verdict has counted
  every such blob.
\<close>

lemma other_length_differs:
  assumes "length (Hash blob) \<noteq> 64 \<or> rune_count (Hash blob) \<noteq> 64"
  shows "computedHash blob \<noteq> Hash blob \<and>
         blobHashErrors (state_of (checkBlobHash i blob st)) = blobHashErrors st + 1 \<and>
         (finished (fst (verifyEvidence export)) \<longrightarrow>
            length (filter (\<lambda>b. length (Hash b) \<noteq> 64 \<or> rune_count (Hash b) \<noteq> 64) (Blobs export))
              \<le> blobHashErrors (snd (verifyEvidence export)))"
proof -
  have neq: "computedHash b \<noteq> Hash b"
    if "length (Hash b) \<noteq> 64 \<or> rune_count (Hash b) \<noteq> 64" for b
    using that length_computedHash [of b] rune_count_computedHash [of b] by auto
  have "length (filter (\<lambda>b. length (Hash b) \<noteq> 64 \<or> rune_count (Hash b) \<noteq> 64) (Blobs export))
          \<le> length (filter hashMismatch (Blobs export))"
    by (rule length_filter_mono) (simp add: hashMismatch_def neq)
  then have "finished (fst (verifyEvidence export)) \<longrightarrow>
            length (filter (\<lambda>b. length (Hash b) \<noteq> 64 \<or> rune_count (Hash b) \<noteq> 64) (Blobs export))
              \<le> blobHashErrors (snd (verifyEvidence export))"
    using verifyEvidence_finished_counts(1) [of export] by (simp add: mismatch_count)
  moreover from neq [OF assms] have "hashMismatch blob" by (simp add: hashMismatch_def)
  then have "blobHashErrors (state_of (checkBlobHash i blob st)) = blobHashErrors st + 1"
    by (simp add: checkBlobHash_counts(1))
  ultimately show ?thesis using neq [OF assms] by blast
qed

section \<open>A changed hash input field\<close>

text \<open>
  SHA-256 has collisions: some verified export and some other source address for one of
  its blobs give no mismatch at all, and the changed export is verified again. No such
  export is exhibited.
\<close>

lemma collision_goes_unnoticed:
  "\<exists>export i srcip.
     fst (verifyEvidence export) = Verified \<and> i < length (Blobs export) \<and>
     srcip \<noteq> SrcIP (Record (Blobs export ! i)) \<and>
     mismatchPositions ((Blobs export)
       [i := (Blobs export ! i)\<lparr>Record := (Record (Blobs export ! i))\<lparr>SrcIP := srcip\<rparr>\<rparr>]) = [] \<and>
     fst (verifyEvidence (export\<lparr>Blobs := (Blobs export)
       [i := (Blobs export ! i)\<lparr>Record := (Record (Blobs export ! i))\<lparr>SrcIP := srcip\<rparr>\<rparr>]\<rparr>)) = Verified"
proof -
  let ?b0 = "blobWith [] []"
  from computedHash_collides [of ?b0] obtain s s' where ne: "s \<noteq> s'"
    and col: "computedHash (?b0\<lparr>Record := (Record ?b0)\<lparr>SrcIP := s\<rparr>\<rparr>) =
              computedHash (?b0\<lparr>Record := (Record ?b0)\<lparr>SrcIP := s'\<rparr>\<rparr>)"
    by blast
  define h where "h = computedHash (?b0\<lparr>Record := (Record ?b0)\<lparr>SrcIP := s\<rparr>\<rparr>)"
  define b where "b = ?b0\<lparr>Record := (Record ?b0)\<lparr>SrcIP := s\<rparr>, Hash := h\<rparr>"
  define b' where "b' = b\<lparr>Record := (Record b)\<lparr>SrcIP := s'\<rparr>\<rparr>"
  define e where "e = exportWith (computedChainHash [b]) [b]"
  define e' where "e' = e\<lparr>Blobs := (Blobs e)[0 := b']\<rparr>"
  have hb: "computedHash b = h"
    by (simp add: b_def h_def computedHash_def hashInput_def)
  have hb': "computedHash b' = h"
    using col by (simp add: b'_def b_def h_def computedHash_def hashInput_def)
  have Hb: "Hash b = h" "Hash b' = h"
    by (simp_all add: b_def b'_def)
  have v: "fst (verifyEvidence e) = Verified"
    unfolding verified_iff
    by (simp add: e_def exportWith_def mismatchPositions_def breakPositions_def hashMismatch_def
        chainHashMatches_iff hb Hb)
  have m: "mismatchPositions ((Blobs e)[0 := b']) = []"
    by (simp add: e_def exportWith_def mismatchPositions_def hashMismatch_def hb' Hb)
  have "computedChainHash [b'] = computedChainHash [b]"
    by (simp add: computedChainHash_def chainHashInput_def Hb)
  then have v': "fst (verifyEvidence e') = Verified"
    unfolding verified_iff
    by (simp add: e'_def e_def exportWith_def mismatchPositions_def breakPositions_def
        hashMismatch_def chainHashMatches_iff hb' Hb)
  have i: "0 < length (Blobs e)" by (simp add: e_def exportWith_def)
  have s: "s' \<noteq> SrcIP (Record (Blobs e ! 0))"
    using ne by (simp add: e_def exportWith_def b_def)
  have b'eq: "(Blobs e ! 0)\<lparr>Record := (Record (Blobs e ! 0))\<lparr>SrcIP := s'\<rparr>\<rparr> = b'"
    by (simp add: e_def exportWith_def b'_def)
  from v i s m v' show ?thesis
    unfolding e'_def b'eq [symmetric] by blast
qed

text \<open>
  In a verified export, replace the blob at position \<open>i\<close> by one with the same stored
  \<open>hash\<close> and \<open>previous_hash\<close>. When its recomputed hash differs from the one of the
  original blob, \<open>i\<close> is the only position with a hash mismatch, no linkage breaks, and the
  run ends as Tampered with one hash error counted.
\<close>

lemma changed_blob_is_the_only_mismatch:
  assumes v: "fst (verifyEvidence export) = Verified"
    and i: "i < length (Blobs export)"
    and hash: "Hash blob' = Hash (Blobs export ! i)"
    and prev: "PreviousHash blob' = PreviousHash (Blobs export ! i)"
    and differs: "computedHash blob' \<noteq> computedHash (Blobs export ! i)"
  shows "mismatchPositions ((Blobs export)[i := blob']) = [i] \<and>
         breakPositions ((Blobs export)[i := blob']) = [] \<and>
         fst (verifyEvidence (export\<lparr>Blobs := (Blobs export)[i := blob']\<rparr>)) = Tampered \<and>
         blobHashErrors (snd (verifyEvidence (export\<lparr>Blobs := (Blobs export)[i := blob']\<rparr>))) = 1 \<and>
         chainErrors (snd (verifyEvidence (export\<lparr>Blobs := (Blobs export)[i := blob']\<rparr>))) = 0"
proof -
  let ?bs = "Blobs export"
  let ?bs' = "?bs[i := blob']"
  let ?e' = "export\<lparr>Blobs := ?bs'\<rparr>"
  from v have m0: "mismatchPositions ?bs = []" and b0: "breakPositions ?bs = []"
    and c0: "chainHashMatches export"
    by (simp_all add: verified_iff)
  have stored: "computedHash (?bs ! j) = Hash (?bs ! j)" if "j < length ?bs" for j
    using filter_positions_Nil [of "\<lambda>j. hashMismatch (?bs ! j)" 0 "length ?bs" j] m0 that
    by (simp add: mismatchPositions_def hashMismatch_def)
  have H: "Hash (?bs' ! j) = Hash (?bs ! j)" for j
    using i hash by (cases "j = i") simp_all
  have P: "PreviousHash (?bs' ! j) = PreviousHash (?bs ! j)" for j
    using i prev by (cases "j = i") simp_all
  have mm: "hashMismatch (?bs' ! j) \<longleftrightarrow> j = i" if "j < length ?bs" for j
  proof (cases "j = i")
    case True
    with i differs hash stored [OF i] show ?thesis by (simp add: hashMismatch_def)
  next
    case False
    with that stored [OF that] show ?thesis by (simp add: hashMismatch_def)
  qed
  have "mismatchPositions ?bs' = filter (\<lambda>j. j = i) [0..<length ?bs]"
    unfolding mismatchPositions_def by (rule filter_cong) (simp_all add: mm)
  with i have m1: "mismatchPositions ?bs' = [i]" by (simp add: filter_eq_index)
  have "breakPositions ?bs' = filter (linkageBreak ?bs) [1..<length ?bs]"
    unfolding breakPositions_def by (rule filter_cong) (simp_all add: linkageBreak_def H P)
  with b0 have b1: "breakPositions ?bs' = []" by (simp add: breakPositions_def)
  have "map Hash ?bs' = map Hash ?bs"
    by (rule nth_equalityI) (simp_all add: H)
  with c0 have c1: "chainHashMatches ?e'" by (simp add: chainHashMatches_def)
  then have len: "32 \<le> length (ChainHash ?e')"
    using length_computedChainHash [of ?bs'] by (simp add: chainHashMatches_iff)
  have long: "list_all (\<lambda>b. hashMismatch b \<longrightarrow> 32 \<le> length (Hash b)) ?bs'"
  proof -
    have "32 \<le> length (Hash (?bs' ! j))" if "j < length ?bs" for j
      using H [of j] stored [OF that] length_computedHash [of "?bs ! j"] by simp
    then show ?thesis by (simp add: list_all_length)
  qed
  have nobreak: "list_all (\<lambda>j. breakAt ?bs' j \<longrightarrow>
               32 \<le> length (Hash (?bs' ! (j - 1))) \<and> 32 \<le> length (PreviousHash (?bs' ! j)))
     [0..<0 + length ?bs']"
  proof -
    have "\<not> breakAt ?bs' j" if "j < length ?bs'" for j
      using that b1 break_positions [of ?bs'] by (simp add: filter_empty_conv)
    then show ?thesis by (simp add: list_all_iff)
  qed
  from rangeLoop_completes [OF _ long nobreak, of "initial ?e'"]
  obtain st where loop: "rangeLoop (Blobs ?e') 0 (Blobs ?e') (initial ?e') = Inr st"
    by auto
  from rangeLoop_whole_counts [OF loop] m1 b1
  have counts: "blobHashErrors st = 1" "chainErrors st = 0"
    by (simp_all add: initial_counts)
  from verifyEvidence_finishes [OF loop len] counts m1 b1 show ?thesis
    by simp
qed

lemma tamperedBlob_is_the_only_mismatch:
  "fst (verifyEvidence genuineExport) = Verified \<and>
   Blobs genuineExport = [genuineBlob] \<and>
   Hash tamperedBlob = Hash genuineBlob \<and>
   PreviousHash tamperedBlob = PreviousHash genuineBlob \<and>
   BytesSent (Record tamperedBlob) \<noteq> BytesSent (Record genuineBlob) \<and>
   computedHash tamperedBlob \<noteq> computedHash genuineBlob \<and>
   mismatchPositions [tamperedBlob] = [0] \<and>
   fst (verifyEvidence (genuineExport\<lparr>Blobs := [tamperedBlob]\<rparr>)) = Tampered \<and>
   blobHashErrors (snd (verifyEvidence (genuineExport\<lparr>Blobs := [tamperedBlob]\<rparr>))) = 1 \<and>
   chainErrors (snd (verifyEvidence (genuineExport\<lparr>Blobs := [tamperedBlob]\<rparr>))) = 0"
proof -
  have b: "Blobs genuineExport = [genuineBlob]"
    by (simp add: genuineExport_def exportWith_def)
  have i: "0 < length (Blobs genuineExport)" by (simp add: b)
  have h: "Hash tamperedBlob = Hash (Blobs genuineExport ! 0)"
    and p: "PreviousHash tamperedBlob = PreviousHash (Blobs genuineExport ! 0)"
    by (simp_all add: b tamperedBlob_def)
  have n: "BytesSent (Record tamperedBlob) \<noteq> BytesSent (Record genuineBlob)"
    by (simp add: tamperedBlob_def genuineBlob_def blobWith_def zeroRecord_def)
  have d: "computedHash tamperedBlob \<noteq> computedHash (Blobs genuineExport ! 0)"
    by (simp add: b computedHash_tamperedBlob computedHash_genuineBlob)
       (simp add: genuineBlob_def blobWith_def)
  from changed_blob_is_the_only_mismatch [OF genuineExport_verified i h p d]
    genuineExport_verified b h p n d
  show ?thesis by simp
qed

section \<open>Runs that end in a panic\<close>

text \<open>
  The report lines slice the stored strings with \<open>[:32]\<close> (lines 166, 178, 179 and 208).
  A stored \<open>hash\<close>, \<open>previous_hash\<close> or \<open>chain_hash\<close> of fewer than 32 bytes makes such
  a line panic, and the run ends there with exit status 2.
\<close>

text \<open>
  C1. The claim: the run ends as Verified (exit status 0) exactly when all three checks
  pass, and as Tampered (exit status 1) otherwise. For the export that the document
  \<open>{}\<close> parses to (no blobs, empty \<open>chain_hash\<close>) no hash mismatches and no linkage
  breaks exist and the chain hash does not match, and the run ends neither way: it panics
  at line 208 and exits with status 2.
\<close>

theorem missing_chain_hash_panics:
  "verifyEvidence (exportWith [] []) =
     (Panicked (SliceBounds 32 0),
      \<lparr>blobHashErrors = 0, chainErrors = 0,
       out = [ExportParsed [] [] [] 0, AllBlobHashesVerified 0, ChainLinkageIntact]\<rparr>) \<and>
   exitStatus (fst (verifyEvidence (exportWith [] []))) = 2 \<and>
   mismatchPositions (Blobs (exportWith [] [])) = [] \<and>
   breakPositions (Blobs (exportWith [] [])) = [] \<and>
   \<not> chainHashMatches (exportWith [] [])"
  by (simp add: run_simps mismatchPositions_def breakPositions_def chainHashMatches_iff)

text \<open>
  C5. The claim: every blob is evaluated whatever failed before, and the reported mismatch
  count is the number of mismatching positions of the whole sequence. For two blobs with
  stored hashes of three bytes both positions mismatch, and the run panics while it reports
  the first: one mismatch is counted, the second blob is never evaluated and no count is
  printed.
\<close>

theorem short_hash_stops_the_scan:
  "verifyEvidence shortHashesExport =
     (Panicked (SliceBounds 32 3),
      \<lparr>blobHashErrors = 1, chainErrors = 0,
       out = [ExportParsed [] [] [] 0, BlobHashMismatch 1]\<rparr>) \<and>
   mismatchPositions (Blobs shortHashesExport) = [0, 1] \<and>
   breakPositions (Blobs shortHashesExport) = []"
  by (simp add: shortHashesExport_def run_simps mismatchPositions_def breakPositions_def
      hashMismatch_def linkageBreak_def upt_rec)

text \<open>
  C6. The claim: reporting a mismatch, a break or the chain hash comparison never aborts the
  run, whatever the stored strings are. Each of the three does: a mismatching stored hash
  of three bytes (line 166), a breaking \<open>previous_hash\<close> of five bytes (line 179), and a
  \<open>chain_hash\<close> of three bytes (line 208).
\<close>

theorem reporting_panics_on_short_strings:
  "fst (verifyEvidence (exportWith emptyInputDigest [blobWith [] ''abc''])) =
     Panicked (SliceBounds 32 3) \<and>
   fst (verifyEvidence (exportWith emptyInputDigest
          [blobWith [] ''aaaaaaaaaaaaaaaaaaaaaaaaaaaaaaaa'',
           blobWith ''short'' ''aaaaaaaaaaaaaaaaaaaaaaaaaaaaaaaa''])) =
     Panicked (SliceBounds 32 5) \<and>
   fst (verifyEvidence (exportWith ''abc'' [])) = Panicked (SliceBounds 32 3)"
  by (simp add: run_simps emptyInputDigest_def)

text \<open>
  C3. The claim: the linkage check compares every blob at a position \<open>i > 0\<close> with the
  stored hash of the blob before it and counts a break when they differ. For three blobs
  whose second has the \<open>previous_hash\<close> \<open>short\<close> and whose third does not link to the
  second, positions 1 and 2 both break. The run panics at line 179 while it reports the
  first break: one break is counted and the blob at position 2 is never compared.
\<close>

theorem short_previous_hash_stops_linkage:
  "breakPositions (Blobs unlinkedShortExport) = [1, 2] \<and>
   fst (verifyEvidence unlinkedShortExport) = Panicked (SliceBounds 32 5) \<and>
   exitStatus (fst (verifyEvidence unlinkedShortExport)) = 2 \<and>
   chainErrors (snd (verifyEvidence unlinkedShortExport)) = 1 \<and>
   BlobChainBreak 2 \<in> set (out (snd (verifyEvidence unlinkedShortExport))) \<and>
   BlobChainBreak 3 \<notin> set (out (snd (verifyEvidence unlinkedShortExport)))"
  by (simp add: unlinkedShortExport_def run_simps breakPositions_def linkageBreak_def upt_rec)

text \<open>
  C4. The claim: the chain hash check computes the digest of the concatenated stored hashes
  and reports a match exactly when it equals the stored \<open>chain_hash\<close>. For one blob with
  the stored hash \<open>abc\<close> and the digest of \<open>abc\<close> as \<open>chain_hash\<close> the two are equal, and
  the run reports neither a match nor a mismatch: it panics at line 166, before the chain
  hash is computed.
\<close>

theorem matching_chain_hash_is_not_reported:
  "fmt_x (Sum256 (bytes_of (concat (map Hash (Blobs shortHashRightChainExport))))) =
     ChainHash shortHashRightChainExport \<and>
   computedChainHash (Blobs shortHashRightChainExport) = ChainHash shortHashRightChainExport \<and>
   verifyEvidence shortHashRightChainExport =
     (Panicked (SliceBounds 32 3),
      \<lparr>blobHashErrors = 1, chainErrors = 0,
       out = [ExportParsed [] [] [] 0, BlobHashMismatch 1]\<rparr>) \<and>
   ChainHashVerified \<notin> set (out (snd (verifyEvidence shortHashRightChainExport))) \<and>
   ChainHashMismatch \<notin> set (out (snd (verifyEvidence shortHashRightChainExport)))"
proof -
  have d: "fmt_x (Sum256 (bytes_of (concat (map Hash (Blobs shortHashRightChainExport))))) =
     ChainHash shortHashRightChainExport"
    by (simp add: shortHashRightChainExport_def exportWith_def blobWith_def digest_abc)
  then have c: "computedChainHash (Blobs shortHashRightChainExport) =
      ChainHash shortHashRightChainExport"
    by (simp add: computedChainHash_def chainHashInput_concat)
  have r: "verifyEvidence shortHashRightChainExport =
     (Panicked (SliceBounds 32 3),
      \<lparr>blobHashErrors = 1, chainErrors = 0,
       out = [ExportParsed [] [] [] 0, BlobHashMismatch 1]\<rparr>)"
    by (simp add: shortHashRightChainExport_def run_simps)
  from d c r show ?thesis by simp
qed

text \<open>
  C10. The claim: every blob whose stored hash does not have exactly 64 characters is
  counted as a hash mismatch. For three blobs with stored hashes of 40, 0 and 65 bytes all
  three positions mismatch. The run panics at line 166 while it reports the second: two
  mismatches are counted and the third blob is never evaluated.
\<close>

theorem later_blobs_of_other_length_are_not_counted:
  "length (filter (\<lambda>b. length (Hash b) \<noteq> 64) (Blobs otherLengthsExport)) = 3 \<and>
   mismatchPositions (Blobs otherLengthsExport) = [0, 1, 2] \<and>
   breakPositions (Blobs otherLengthsExport) = [] \<and>
   fst (verifyEvidence otherLengthsExport) = Panicked (SliceBounds 32 0) \<and>
   exitStatus (fst (verifyEvidence otherLengthsExport)) = 2 \<and>
   blobHashErrors (snd (verifyEvidence otherLengthsExport)) = 2 \<and>
   BlobHashMismatch 2 \<in> set (out (snd (verifyEvidence otherLengthsExport))) \<and>
   BlobHashMismatch 3 \<notin> set (out (snd (verifyEvidence otherLengthsExport)))"
  by (simp add: otherLengthsExport_def run_simps mismatchPositions_def breakPositions_def
      hashMismatch_def linkageBreak_def upt_rec)

end
